theory Spec2Isabelle
  imports Complex_Main "HOL-Library.AList"
begin

section \<open>Python values shared by both source files\<close>

text \<open>
  Exceptions are values: every \<^verbatim>\<open>raise\<close> of the source, and every exception the Python or
  torch primitives used by the source raise, is the left summand of the result type.
  \<open>RuntimeError\<close> is what torch raises (integer division by zero on a tensor, the truth
  value of a tensor that does not hold exactly one element, a shape that does not
  broadcast).
\<close>

datatype py_error =
  TypeError | ValueError | IndexError | RuntimeError | ZeroDivisionError | AttributeError
  | OverflowError

definition bindE :: "py_error + 'a \<Rightarrow> ('a \<Rightarrow> py_error + 'b) \<Rightarrow> py_error + 'b" where
  "bindE m f = (case m of Inl e \<Rightarrow> Inl e | Inr x \<Rightarrow> f x)"

section \<open>Gradient synchronizer: \<^verbatim>\<open>heat/nn/data_parallel/data_parallel.py\<close>\<close>

subsection \<open>Construction (\<^verbatim>\<open>DataParallel.__init__\<close>)\<close>

text \<open>
  A module is its \<^verbatim>\<open>named_parameters()\<close>: the list of (name, parameter) pairs in the
  order the module reports them; \<^verbatim>\<open>parameters()\<close> is the list of the second components.
  A parameter is a tensor object: equality of the model is the identity of the objects.
  The optimizer is its \<^verbatim>\<open>param_groups[0]["params"]\<close> list, \<open>None\<close> when no optimizer is given.

  A hook registered on a parameter is either the bound method \<^verbatim>\<open>blocking_hook\<close> or the
  closure \<^verbatim>\<open>_hook\<close> that \<^verbatim>\<open>nonblocking_hook(layer_name)\<close> returns.
\<close>

datatype hook = Blocking_hook | Nonblocking_hook string

record 'p data_parallel =
  params_ref :: "'p list option"
  optimizer_params :: "'p list option"
  param_indices :: "(string \<times> nat) list"
  param_slices :: "(string option \<times> nat \<times> nat) list"
  registered :: "('p \<times> hook) list"

text \<open>
  \<^verbatim>\<open>def nonblocking_hook(self, layer_name: str)\<close> takes one argument besides \<^verbatim>\<open>self\<close>.
  The model receives the positional arguments of the call as a list; Python raises
  TypeError when their number is not one.
\<close>

definition nonblocking_hook :: "string list \<Rightarrow> py_error + hook" where
  "nonblocking_hook args =
     (case args of [layer_name] \<Rightarrow> Inr (Nonblocking_hook layer_name) | _ \<Rightarrow> Inl TypeError)"

text \<open>\<^verbatim>\<open>name.split(sep=".", maxsplit=1)[0]\<close>: the name up to its first dot.\<close>

definition first_segment :: "string \<Rightarrow> string" where
  "first_segment name = takeWhile (\<lambda>c. c \<noteq> CHR ''.'') name"

text \<open>
  The loop of lines 83--97, over \<^verbatim>\<open>enumerate(module.named_parameters())\<close>. Its state is
  \<^verbatim>\<open>start_idx\<close>, \<^verbatim>\<open>layer_name_prev\<close> and the object under construction; \<open>opt\<close> tells whether
  an optimizer was given.
\<close>

fun init_loop ::
  "bool \<Rightarrow> nat \<Rightarrow> (string \<times> 'p) list \<Rightarrow> nat \<Rightarrow> string option \<Rightarrow> 'p data_parallel
     \<Rightarrow> py_error + (nat \<times> string option \<times> 'p data_parallel)" where
  "init_loop opt idx [] start_idx layer_name_prev self = Inr (start_idx, layer_name_prev, self)"
| "init_loop opt idx ((name, param) # rest) start_idx layer_name_prev self =
     (let self1 = self\<lparr>param_indices := AList.update name idx (param_indices self)\<rparr>;
          layer_name = first_segment name;
          layer_name_prev1 = (case layer_name_prev of None \<Rightarrow> Some layer_name | Some l \<Rightarrow> Some l);
          changed = (layer_name_prev1 \<noteq> Some layer_name);
          self2 = (if changed
                   then self1\<lparr>param_slices :=
                          AList.update layer_name_prev1 (start_idx, idx) (param_slices self1)\<rparr>
                   else self1);
          layer_name_prev2 = (if changed then Some layer_name else layer_name_prev1);
          start_idx2 = (if changed then idx else start_idx)
      in bindE (if opt then nonblocking_hook [layer_name, name] else Inr Blocking_hook)
           (\<lambda>h. init_loop opt (Suc idx) rest start_idx2 layer_name_prev2
                  (self2\<lparr>registered := registered self2 @ [(param, h)]\<rparr>)))"

text \<open>
  \<^verbatim>\<open>list(module.parameters()) != optimizer.param_groups[0]["params"]\<close> (line 73). Python
  compares two lists of different lengths without looking at their items. Otherwise it
  goes through the pairs of items in order: two items that are the same object are
  equal; for two different tensors it takes the truth value of \<^verbatim>\<open>x == y\<close>, which torch
  gives for a comparison of one element and refuses with RuntimeError for a comparison of
  several elements or of shapes that do not broadcast. The tensors' values are not part
  of the model, so \<open>eq_truth x y\<close> stands for \<^verbatim>\<open>bool(x == y)\<close> of two different tensor objects.
  The first pair that is not equal ends the comparison.
\<close>

fun items_differ :: "('p \<Rightarrow> 'p \<Rightarrow> py_error + bool) \<Rightarrow> 'p list \<Rightarrow> 'p list \<Rightarrow> py_error + bool" where
  "items_differ eq_truth (x # xs) (y # ys) =
     (if x = y then items_differ eq_truth xs ys
      else bindE (eq_truth x y) (\<lambda>b. if b then items_differ eq_truth xs ys else Inr True))"
| "items_differ eq_truth xs ys = Inr False"

definition list_ne :: "('p \<Rightarrow> 'p \<Rightarrow> py_error + bool) \<Rightarrow> 'p list \<Rightarrow> 'p list \<Rightarrow> py_error + bool" where
  "list_ne eq_truth xs ys =
     (if length xs \<noteq> length ys then Inr True else items_differ eq_truth xs ys)"

definition DataParallel_init ::
  "('p \<Rightarrow> 'p \<Rightarrow> py_error + bool) \<Rightarrow> (string \<times> 'p) list \<Rightarrow> 'p list option
     \<Rightarrow> py_error + 'p data_parallel" where
  "DataParallel_init eq_truth named_parameters optimizer =
     (let self0 = \<lparr>params_ref = None, optimizer_params = optimizer,
                    param_indices = [], param_slices = [], registered = []\<rparr>
      in bindE
           (case optimizer of
              None \<Rightarrow> Inr self0
            | Some ps \<Rightarrow>
                bindE (list_ne eq_truth (map snd named_parameters) ps) (\<lambda>differ.
                  if differ then Inl ValueError
                  else Inr (self0\<lparr>params_ref := Some ps, optimizer_params := Some []\<rparr>)))
           (\<lambda>self1. bindE
              (init_loop (optimizer \<noteq> None) 0 named_parameters 0 None self1)
              (\<lambda>(start_idx, layer_name_prev, self2).
                 Inr (self2\<lparr>param_slices :=
                        AList.update layer_name_prev (start_idx, length (param_indices self2))
                          (param_slices self2)\<rparr>))))"

subsection \<open>Blocking hook\<close>






text \<open>The number of bits of a positive integer.\<close>

function bitlen :: "int \<Rightarrow> nat" where
  "bitlen m = (if m \<le> 0 then 0 else Suc (bitlen (m div 2)))"
  by pat_completeness auto
termination
  by (relation "measure nat") auto

declare bitlen.simps [simp del]


definition round_shift :: "int \<Rightarrow> nat \<Rightarrow> int" where
  "round_shift m k =
     (let q = m div 2 ^ k; r = m mod 2 ^ k
      in if 2 * r < 2 ^ k \<or> (2 * r = 2 ^ k \<and> even q) then q else q + 1)"










text \<open>
  The real number an element stands for, the largest finite number of a dtype, and the
  finite numbers of a dtype: \<open>representable\<close> holds of every \<open>m * 2^e\<close> that is one, and
  \<open>halvable\<close> of those that are a multiple of \<open>2^(emin + 1)\<close>, whose half is a number of the
  dtype too (every number of magnitude \<open>2^(emin + precision)\<close> or more is one).
\<close>

definition fval :: "int \<Rightarrow> int \<Rightarrow> real" where
  "fval m e = of_int m * 2 powi e"





subsection \<open>Non-blocking hook\<close>

text \<open>
  \<^verbatim>\<open>bisect.insort(a, x)\<close> on a list of (size, handle) tuples. Python compares tuples
  lexicographically: the first components decide unless they are equal; then equal second
  components make the tuples equal, and otherwise the handles are compared with \<^verbatim>\<open><\<close>.
  The handle class is not part of the sources, so its \<^verbatim>\<open><\<close> is a parameter \<open>hlt\<close>, with
  \<open>None\<close> for a class that defines no ordering (Python raises TypeError).
\<close>

definition tuple_lt ::
  "('h \<Rightarrow> 'h \<Rightarrow> bool option) \<Rightarrow> nat \<times> 'h \<Rightarrow> nat \<times> 'h \<Rightarrow> py_error + bool" where
  "tuple_lt hlt x y =
     (if fst x \<noteq> fst y then Inr (fst x < fst y)
      else if snd x = snd y then Inr False
      else (case hlt (snd x) (snd y) of None \<Rightarrow> Inl TypeError | Some b \<Rightarrow> Inr b))"

function bisect_right ::
  "('h \<Rightarrow> 'h \<Rightarrow> bool option) \<Rightarrow> (nat \<times> 'h) list \<Rightarrow> nat \<times> 'h \<Rightarrow> nat \<Rightarrow> nat \<Rightarrow> py_error + nat" where
  "bisect_right hlt a x lo hi =
     (if lo < hi
      then (let mid = (lo + hi) div 2
            in case tuple_lt hlt x (a ! mid) of
                 Inl e \<Rightarrow> Inl e
               | Inr True \<Rightarrow> bisect_right hlt a x lo mid
               | Inr False \<Rightarrow> bisect_right hlt a x (mid + 1) hi)
      else Inr lo)"
  by pat_completeness auto
termination
  by (relation "measure (\<lambda>(hlt, a, x, lo, hi). hi - lo)") auto

definition insort :: "('h \<Rightarrow> 'h \<Rightarrow> bool option) \<Rightarrow> (nat \<times> 'h) list \<Rightarrow> nat \<times> 'h \<Rightarrow> py_error + (nat \<times> 'h) list" where
  "insort hlt a x =
     bindE (bisect_right hlt a x 0 (length a)) (\<lambda>lo. Inr (take lo a @ [x] @ drop lo a))"

text \<open>
  The closure \<^verbatim>\<open>_hook\<close> of \<^verbatim>\<open>nonblocking_hook(layer_name)\<close>. \<open>wait_handles\<close> is the
  OrderedDict of the object, \<open>shape\<close> is \<^verbatim>\<open>grad_loc.shape\<close> and \<open>wait_handle\<close> is the handle
  that \<^verbatim>\<open>Iallreduce\<close> returned for the scaled clone of the gradient. The hook returns
  \<^verbatim>\<open>grad_loc\<close> itself; the model returns the updated dictionary.
\<close>

definition size1D :: "nat list \<Rightarrow> nat" where
  "size1D shape = foldl (*) 1 shape"

definition hook_nonblocking ::
  "('h \<Rightarrow> 'h \<Rightarrow> bool option) \<Rightarrow> (string \<times> (nat \<times> 'h) list) list \<Rightarrow> string \<Rightarrow> nat list \<Rightarrow> 'h
     \<Rightarrow> py_error + (string \<times> (nat \<times> 'h) list) list" where
  "hook_nonblocking hlt wait_handles layer_name shape wait_handle =
     (let wait_handles1 = (if map_of wait_handles layer_name = None
                           then wait_handles @ [(layer_name, [])] else wait_handles);
          queue = (case map_of wait_handles1 layer_name of None \<Rightarrow> [] | Some q \<Rightarrow> q)
      in bindE (insort hlt queue (size1D shape, wait_handle))
           (\<lambda>queue1. Inr (AList.update layer_name queue1 wait_handles1)))"

text \<open>
  The spec's words for the insertion: the new pair goes to the position that keeps the
  queue ascending by size, after the pairs of equal size that are already there.
\<close>

definition stable_insert_spec :: "(nat \<times> 'h) list \<Rightarrow> nat \<times> 'h \<Rightarrow> (nat \<times> 'h) list" where
  "stable_insert_spec a x =
     takeWhile (\<lambda>y. fst y \<le> fst x) a @ [x] @ dropWhile (\<lambda>y. fst y \<le> fst x) a"

text \<open>
  Two handle classes to run the hook on: one that defines no ordering (comparing two of
  its handles raises TypeError) and one whose handles are ordered like numbers.
\<close>

definition no_ordering :: "nat \<Rightarrow> nat \<Rightarrow> bool option" where
  "no_ordering a b = None"

definition nat_ordering :: "nat \<Rightarrow> nat \<Rightarrow> bool option" where
  "nat_ordering a b = Some (a < b)"

section \<open>Tiling: \<^verbatim>\<open>heat/core/tiling.py\<close>\<close>

subsection \<open>Python sequences\<close>

text \<open>
  \<^verbatim>\<open>xs[i]\<close> on a list, a tuple or a one-dimensional tensor: a negative index counts from the
  end, an index out of range raises IndexError.
\<close>

definition py_index :: "'a list \<Rightarrow> int \<Rightarrow> py_error + 'a" where
  "py_index xs i =
     (let n = int (length xs); j = (if i < 0 then i + n else i)
      in if 0 \<le> j \<and> j < n then Inr (xs ! nat j) else Inl IndexError)"

text \<open>
  The bounds a slice \<^verbatim>\<open>start:stop\<close> (no step) selects in a sequence of length \<open>n\<close>, as
  \<^verbatim>\<open>slice.indices\<close> computes them: \<open>None\<close> is the end of the sequence on its side, a negative
  bound counts from the end, and both are clamped to the sequence.
\<close>

definition py_bound :: "int \<Rightarrow> nat \<Rightarrow> nat" where
  "py_bound i n = (if i < 0 then nat (max 0 (i + int n)) else min (nat i) n)"

definition py_slice_bounds :: "int option \<Rightarrow> int option \<Rightarrow> nat \<Rightarrow> nat \<times> nat" where
  "py_slice_bounds start stop n =
     ((case start of None \<Rightarrow> 0 | Some a \<Rightarrow> py_bound a n),
      (case stop of None \<Rightarrow> n | Some b \<Rightarrow> py_bound b n))"

definition py_slice :: "'a list \<Rightarrow> int option \<Rightarrow> int option \<Rightarrow> 'a list" where
  "py_slice xs start stop =
     (let (lo, hi) = py_slice_bounds start stop (length xs) in take (hi - lo) (drop lo xs))"

text \<open>\<^verbatim>\<open>xs.insert(i, x)\<close> and \<^verbatim>\<open>xs[i] = x\<close> on a list.\<close>

definition py_insert :: "'a list \<Rightarrow> int \<Rightarrow> 'a \<Rightarrow> 'a list" where
  "py_insert xs i x = (let k = py_bound i (length xs) in take k xs @ [x] @ drop k xs)"

definition py_setitem :: "'a list \<Rightarrow> int \<Rightarrow> 'a \<Rightarrow> py_error + 'a list" where
  "py_setitem xs i x =
     (let n = int (length xs); j = (if i < 0 then i + n else i)
      in if 0 \<le> j \<and> j < n then Inr (xs[nat j := x]) else Inl IndexError)"

subsection \<open>The array and the tiling object\<close>

text \<open>
  The fields of a DNDarray that \<^verbatim>\<open>tiling.py\<close> reads. \<open>larray\<close> is the local torch tensor
  \<^verbatim>\<open>_DNDarray__array\<close> of this process, as its list of rows; \<open>comm_lshapes\<close> is the local
  shape of the array on every rank, which is what the \<^verbatim>\<open>Allreduce\<close> of line 69 gathers
  into \<^verbatim>\<open>lshape_map\<close>. \<open>split\<close> is \<open>None\<close> for an array that is not distributed.
\<close>

record 'a DNDarray =
  gshape :: "int list"
  split :: "int option"
  comm_size :: nat
  comm_rank :: nat
  comm_lshapes :: "int list list"
  larray :: "'a list list"

text \<open>
  The private fields of a \<^verbatim>\<open>SquareDiagTiles\<close> object, under the names of the
  properties that return them. A cell of \<open>tile_map\<close> is the triple
  (row start, column start, rank) of one tile; the map is the list of its rows. A map
  without rows is taken to have no columns (\<^verbatim>\<open>__init__\<close> returns no such map).
\<close>

record 'a tiles =
  arr :: "'a DNDarray"
  tile_columns_per_process :: "int list"
  lshape_map :: "int list list"
  last_diagonal_process :: int
  tile_rows_per_process :: "int list"
  tile_map :: "(int \<times> int \<times> int) list list"
  row_indices :: "int list"
  col_indices :: "int list"
  tile_columns :: nat
  tile_rows :: nat

subsection \<open>Tile keys\<close>

text \<open>
  One component of a key is an integer or a slice without step. A key is an integer, a
  slice, or a tuple of one or two components. Lists, tensors, strided slices and longer
  tuples are outside the model.
\<close>

datatype idx = IntK int | SliceK "int option" "int option"

datatype key = KInt int | KSlice "int option" "int option" | KTuple1 idx | KTuple2 idx idx

text \<open>The positions an index component selects along a dimension of size \<open>n\<close> of a tensor.\<close>

definition select_idx :: "idx \<Rightarrow> nat \<Rightarrow> py_error + nat list" where
  "select_idx k n =
     (case k of
        IntK i \<Rightarrow> (if - int n \<le> i \<and> i < int n
                  then Inr [nat (if i < 0 then i + int n else i)] else Inl IndexError)
      | SliceK a b \<Rightarrow> (let (lo, hi) = py_slice_bounds a b n in Inr [lo..<hi]))"

definition key_components :: "key \<Rightarrow> idx \<times> idx" where
  "key_components k =
     (case k of
        KInt i \<Rightarrow> (IntK i, SliceK None None)
      | KSlice a b \<Rightarrow> (SliceK a b, SliceK None None)
      | KTuple1 k0 \<Rightarrow> (k0, SliceK None None)
      | KTuple2 k0 k1 \<Rightarrow> (k0, k1))"

definition map_columns :: "'c list list \<Rightarrow> nat" where
  "map_columns m = (case m of [] \<Rightarrow> 0 | r # _ \<Rightarrow> length r)"

text \<open>
  \<^verbatim>\<open>tile_map[key][..., 2]\<close>: the rank entries of the selected tiles, row by row.
  \<^verbatim>\<open>.unique()\<close> gives the sorted list of the distinct values.
\<close>

definition tile_map_ranks :: "(int \<times> int \<times> int) list list \<Rightarrow> key \<Rightarrow> py_error + int list" where
  "tile_map_ranks m k =
     (let (k0, k1) = key_components k
      in bindE (select_idx k0 (length m)) (\<lambda>rows.
         bindE (select_idx k1 (map_columns m)) (\<lambda>cols.
         Inr (concat (map (\<lambda>i. map (\<lambda>j. snd (snd (m ! i ! j))) cols) rows)))))"

definition unique :: "int list \<Rightarrow> int list" where
  "unique xs = sort (remdups xs)"

subsection \<open>\<^verbatim>\<open>get_start_stop\<close> and \<^verbatim>\<open>__getitem__\<close>\<close>

text \<open>
  Lines 446--459 and 554--567, the same in both functions: the start and stop of one key
  component in the boundary list \<open>inds\<close> (the tile starts followed by the global extent),
  relative to \<open>start0\<close>, the first row or column of the process.
\<close>

definition component_bounds :: "int list \<Rightarrow> int \<Rightarrow> idx \<Rightarrow> py_error + (int \<times> int)" where
  "component_bounds inds start0 k =
     (case k of
        IntK i \<Rightarrow>
          bindE (py_index inds i) (\<lambda>a.
          bindE (py_index inds (i + 1)) (\<lambda>b. Inr (a - start0, b - start0)))
      | SliceK s e \<Rightarrow>
          bindE (case s of None \<Rightarrow> Inr 0 | Some s' \<Rightarrow> py_index inds s') (\<lambda>start.
          bindE (case e of None \<Rightarrow> py_index inds (- 1) | Some e' \<Rightarrow> py_index inds e') (\<lambda>stop.
          Inr (start - start0, stop - start0))))"

text \<open>
  \<^verbatim>\<open>inds[sum(per_proc[:pr]) if split == axis else 0]\<close>. In \<^verbatim>\<open>get_start_stop\<close> \<open>pr\<close> is the
  tensor of the owning ranks: it converts to an index when it holds one element, and
  raises TypeError when it holds none.
\<close>

definition proc_start :: "int list \<Rightarrow> int list \<Rightarrow> bool \<Rightarrow> int list \<Rightarrow> py_error + int" where
  "proc_start inds per_proc on_split pr =
     (if on_split
      then (case pr of
              [p] \<Rightarrow> py_index inds (sum_list (py_slice per_proc None (Some p)))
            | _ \<Rightarrow> Inl TypeError)
      else py_index inds 0)"

definition get_start_stop :: "'a tiles \<Rightarrow> key \<Rightarrow> py_error + (int \<times> int \<times> int \<times> int)" where
  "get_start_stop self k =
     bindE (tile_map_ranks (tile_map self) k) (\<lambda>ranks.
       let pr = unique ranks
       in if length pr > 1 then Inl ValueError
          else
            bindE (py_index (gshape (arr self)) 0) (\<lambda>g0.
            bindE (py_index (gshape (arr self)) 1) (\<lambda>g1.
            let row_inds = row_indices self @ [g0];
                col_inds = col_indices self @ [g1]
            in bindE (proc_start row_inds (tile_rows_per_process self)
                        (split (arr self) = Some 0) pr) (\<lambda>row_start.
               bindE (proc_start col_inds (tile_columns_per_process self)
                        (split (arr self) = Some 1) pr) (\<lambda>col_start.
               bindE (case k of
                        KInt i \<Rightarrow> Inr (IntK i, SliceK (Some 0) None)
                      | KSlice a b \<Rightarrow> Inr (SliceK a b, SliceK (Some 0) None)
                      | KTuple1 k0 \<Rightarrow> Inl IndexError
                      | KTuple2 k0 k1 \<Rightarrow> Inr (k0, k1)) (\<lambda>(k0, k1).
               bindE (component_bounds row_inds row_start k0) (\<lambda>(st0, sp0).
               bindE (component_bounds col_inds col_start k1) (\<lambda>(st1, sp1).
               Inr (st0, sp0, st1, sp1)))))))))"

text \<open>
  \<^verbatim>\<open>__getitem__\<close> returns \<open>None\<close> or the view \<^verbatim>\<open>local_arr[st0:sp0, st1:sp1]\<close>; the model
  returns the four bounds of the view. \<open>view_region\<close> gives the rows and columns of the
  local array that the view covers, \<open>view_elements\<close> what it reads.
\<close>

definition getitem :: "'a tiles \<Rightarrow> key \<Rightarrow> py_error + (int \<times> int \<times> int \<times> int) option" where
  "getitem self k =
     bindE (tile_map_ranks (tile_map self) k) (\<lambda>ranks.
       let pr = unique ranks
       in if length pr > 1 then Inl ValueError
          else if length pr = 0 then Inr None
          else if int (comm_rank (arr self)) \<noteq> hd pr then Inr None
          else
            bindE (py_index (gshape (arr self)) 0) (\<lambda>g0.
            bindE (py_index (gshape (arr self)) 1) (\<lambda>g1.
            let rank = int (comm_rank (arr self));
                row_inds = row_indices self @ [g0];
                col_inds = col_indices self @ [g1]
            in bindE (proc_start row_inds (tile_rows_per_process self)
                        (split (arr self) = Some 0) [rank]) (\<lambda>row_start.
               bindE (proc_start col_inds (tile_columns_per_process self)
                        (split (arr self) = Some 1) [rank]) (\<lambda>col_start.
               bindE (case k of
                        KInt i \<Rightarrow> Inr (IntK i, SliceK (Some 0) None)
                      | KSlice a b \<Rightarrow> Inl TypeError
                      | KTuple1 k0 \<Rightarrow> Inr (k0, SliceK (Some 0) None)
                      | KTuple2 k0 k1 \<Rightarrow> Inr (k0, k1)) (\<lambda>(k0, k1).
               bindE (component_bounds row_inds row_start k0) (\<lambda>(st0, sp0).
               bindE (component_bounds col_inds col_start k1) (\<lambda>(st1, sp1).
               Inr (Some (st0, sp0, st1, sp1))))))))))"

definition view_region :: "'a list list \<Rightarrow> int \<times> int \<times> int \<times> int \<Rightarrow> (nat \<times> nat) \<times> (nat \<times> nat)" where
  "view_region local_arr v =
     (case v of (st0, sp0, st1, sp1) \<Rightarrow>
        (py_slice_bounds (Some st0) (Some sp0) (length local_arr),
         py_slice_bounds (Some st1) (Some sp1) (map_columns local_arr)))"

definition view_elements :: "'a list list \<Rightarrow> int \<times> int \<times> int \<times> int \<Rightarrow> 'a list list" where
  "view_elements local_arr v =
     (case v of (st0, sp0, st1, sp1) \<Rightarrow>
        map (\<lambda>row. py_slice row (Some st1) (Some sp1)) (py_slice local_arr (Some st0) (Some sp0)))"

subsection \<open>\<^verbatim>\<open>__setitem__\<close>\<close>

text \<open>
  The value written is a number or a two-dimensional tensor. \<^verbatim>\<open>view[0:] = value\<close> fills the
  view with the number, or copies the tensor, broadcast along a dimension where it has
  size one; torch raises RuntimeError when the shapes do not broadcast.
\<close>

datatype 'a tile_value = Scalar 'a | Tensor "'a list list"

definition broadcast_value :: "'a tile_value \<Rightarrow> nat \<Rightarrow> nat \<Rightarrow> py_error + (nat \<Rightarrow> nat \<Rightarrow> 'a)" where
  "broadcast_value v r c =
     (case v of
        Scalar x \<Rightarrow> Inr (\<lambda>i j. x)
      | Tensor t \<Rightarrow>
          (let vr = length t; vc = map_columns t
           in if (vr = r \<or> vr = 1) \<and> (vc = c \<or> vc = 1)
              then Inr (\<lambda>i j. t ! (if vr = 1 then 0 else i) ! (if vc = 1 then 0 else j))
              else Inl RuntimeError))"

definition view_setitem ::
  "'a list list \<Rightarrow> int \<times> int \<times> int \<times> int \<Rightarrow> 'a tile_value \<Rightarrow> py_error + 'a list list" where
  "view_setitem local_arr v val =
     (case view_region local_arr v of ((lo0, hi0), (lo1, hi1)) \<Rightarrow>
        bindE (broadcast_value val (hi0 - lo0) (hi1 - lo1)) (\<lambda>f.
          Inr (map (\<lambda>i. map (\<lambda>j. if lo0 \<le> i \<and> i < hi0 \<and> lo1 \<le> j \<and> j < hi1
                                  then f (i - lo0) (j - lo1) else local_arr ! i ! j)
                         [0..<length (local_arr ! i)])
                   [0..<length local_arr])))"

text \<open>
  \<^verbatim>\<open>if arr.comm.rank == tile_map[key][..., 2].unique()\<close>: the truth value of the comparison
  exists when the tensor holds one rank; torch raises RuntimeError otherwise.
\<close>

definition setitem :: "'a tiles \<Rightarrow> key \<Rightarrow> 'a tile_value \<Rightarrow> py_error + 'a tiles" where
  "setitem self k val =
     bindE (tile_map_ranks (tile_map self) k) (\<lambda>ranks.
       case unique ranks of
         [p] \<Rightarrow>
           if int (comm_rank (arr self)) = p
           then bindE (getitem self k) (\<lambda>view.
                  case view of
                    None \<Rightarrow> Inl AttributeError
                  | Some v \<Rightarrow>
                      bindE (view_setitem (larray (arr self)) v val) (\<lambda>local_arr.
                        Inr (self\<lparr>arr := (arr self)\<lparr>larray := local_arr\<rparr>\<rparr>)))
           else Inr self
       | _ \<Rightarrow> Inl RuntimeError)"

subsection \<open>\<^verbatim>\<open>local_to_global\<close>\<close>

text \<open>
  Lines 637--643 and 650--656: one key component moved by \<open>prev\<close>, the number of tiles on
  the ranks before, with \<open>loc\<close> the number of tiles of the rank.
\<close>

definition shift_component :: "idx \<Rightarrow> int \<Rightarrow> int \<Rightarrow> idx" where
  "shift_component k prev loc =
     (case k of
        IntK i \<Rightarrow> IntK (i + prev)
      | SliceK s e \<Rightarrow>
          (let start = (case s of Some s' \<Rightarrow> s' + prev | None \<Rightarrow> prev);
               stop = (case e of Some e' \<Rightarrow> e' + prev | None \<Rightarrow> prev + loc);
               stop' = (if stop - start < loc then stop else start + loc)
           in SliceK (Some start) (Some stop')))"

definition local_to_global :: "'a tiles \<Rightarrow> key \<Rightarrow> int \<Rightarrow> py_error + idx list" where
  "local_to_global self k rank =
     (let key0 = (case k of
                   KInt i \<Rightarrow> [IntK i, SliceK (Some 0) None]
                 | KSlice a b \<Rightarrow> [SliceK a b, SliceK (Some 0) None]
                 | KTuple1 k0 \<Rightarrow> [k0]
                 | KTuple2 k0 k1 \<Rightarrow> [k0, k1])
      in bindE
           (if split (arr self) = Some 0
            then (let prev_rows = sum_list (py_slice (tile_rows_per_process self) None (Some rank))
                  in bindE (py_index (tile_rows_per_process self) rank) (\<lambda>loc_rows.
                       Inr (key0[0 := shift_component (key0 ! 0) prev_rows loc_rows])))
            else Inr key0)
           (\<lambda>key1.
              if split (arr self) = Some 1
              then bindE (py_index (tile_columns_per_process self) rank) (\<lambda>loc_cols.
                     let prev_cols = sum_list (py_slice (tile_columns_per_process self) None (Some rank))
                     in bindE (py_index key1 1) (\<lambda>k1.
                          Inr (key1[1 := shift_component k1 prev_cols loc_cols])))
              else Inr key1))"

subsection \<open>Construction (\<^verbatim>\<open>SquareDiagTiles.__init__\<close>)\<close>

text \<open>
  The first argument of the constructor is any Python object; only its being a DNDarray
  or not is looked at (line 60).
\<close>

datatype 'a py_object = DNDarray_object "'a DNDarray" | Other_object

text \<open>
  \<^verbatim>\<open>/\<close> between an integer tensor and a number depends on the torch release: it is true
  division (a division by zero gives \<open>inf\<close>, \<open>-inf\<close> or \<open>nan\<close>), or, in the older releases,
  integer division, which raises RuntimeError on a division by zero. The source compares
  the quotient with an integer, and then both divisions agree wherever the divisor is not
  zero. The quotient is taken in \<^typ>\<open>real\<close>: the single-precision rounding of torch is left
  out, which is exact for extents below \<open>2^24\<close>.
\<close>

datatype tensor_division = True_division | Integer_division

text \<open>\<^verbatim>\<open>a / b < c\<close> (line 84).\<close>

definition div_less :: "tensor_division \<Rightarrow> int \<Rightarrow> int \<Rightarrow> int \<Rightarrow> py_error + bool" where
  "div_less dm a b c =
     (if b = 0
      then (case dm of True_division \<Rightarrow> Inr (a < 0) | Integer_division \<Rightarrow> Inl RuntimeError)
      else Inr (real_of_int a / real_of_int b < real_of_int c))"

text \<open>\<^verbatim>\<open>a > b / 2\<close> (line 138); integer division truncates toward zero.\<close>

definition greater_half :: "tensor_division \<Rightarrow> int \<Rightarrow> int \<Rightarrow> bool" where
  "greater_half dm a b =
     (case dm of
        True_division \<Rightarrow> real_of_int a > real_of_int b / 2
      | Integer_division \<Rightarrow> a > (if 0 \<le> b then b div 2 else - ((- b) div 2)))"

text \<open>
  Modelled from the spec: \<^verbatim>\<open>arr.comm.chunk(shape, 0, rank, w_size)\<close> is not part of the
  sources. The spec calls it the balanced 1-D chunking function
  \<open>chunk(extent, axis, rank, world_size) -> local_extent\<close> that cuts an extent into
  near-equal chunks; the first \<open>extent mod w_size\<close> ranks hold one element more. Its
  integer division raises ZeroDivisionError for no ranks.
\<close>

definition chunk :: "int \<Rightarrow> int \<Rightarrow> int \<Rightarrow> py_error + int" where
  "chunk extent rank w_size =
     (if w_size = 0 then Inl ZeroDivisionError
      else Inr (extent div w_size + (if rank < extent mod w_size then 1 else 0)))"

text \<open>\<^verbatim>\<open>torch.cumsum\<close> of a one-dimensional tensor, and \<^verbatim>\<open>m[..., j]\<close> of a two-dimensional one.\<close>

definition cumsum :: "int list \<Rightarrow> int list" where
  "cumsum xs = map (\<lambda>i. sum_list (take (Suc i) xs)) [0..<length xs]"

definition tensor_column :: "int list list \<Rightarrow> int \<Rightarrow> py_error + int list" where
  "tensor_column m j =
     (let n = int (map_columns m); j' = (if j < 0 then j + n else j)
      in if 0 \<le> j' \<and> j' < n then Inr (map (\<lambda>row. row ! nat j') m) else Inl IndexError)"

text \<open>Running a loop body over a list in order, stopping at the first exception.\<close>

fun mapE :: "('a \<Rightarrow> py_error + 'b) \<Rightarrow> 'a list \<Rightarrow> py_error + 'b list" where
  "mapE f [] = Inr []"
| "mapE f (x # xs) = bindE (f x) (\<lambda>y. bindE (mapE f xs) (\<lambda>ys. Inr (y # ys)))"

text \<open>
  Lines 73--81. \<open>lm\<close> is \<^verbatim>\<open>lshape_map\<close>, \<open>g\<close> the global shape and \<open>s\<close> the split axis. The
  result is \<^verbatim>\<open>min(arr.gshape)\<close>, the cumulative sum of the local extents along the split
  axis, \<^verbatim>\<open>last_diag_pr\<close> and \<^verbatim>\<open>rem_cols_last_pr\<close>.

  For an array that is not distributed \<^verbatim>\<open>lshape_map[..., None]\<close> has a dimension more. Then
  \<^verbatim>\<open>last_diag_pr\<close> is the first rank at which the cumulative sum of some column reaches the
  minimum, \<^verbatim>\<open>rem_cols_last_pr\<close> holds one entry for each dimension of the array, and its
  truth value in the loop condition exists for one dimension only; this case is the
  result \<open>Inl\<close> of \<open>diag_start\<close>, with the number of dimensions.
\<close>

definition first_reaching :: "int list \<Rightarrow> int \<Rightarrow> py_error + nat" where
  "first_reaching cs mn =
     (let d = length (takeWhile (\<lambda>c. c < mn) cs)
      in if d < length cs then Inr d else Inl IndexError)"

definition gshape_min :: "int list \<Rightarrow> py_error + int" where
  "gshape_min g = (case g of [] \<Rightarrow> Inl ValueError | x # xs \<Rightarrow> Inr (fold min xs x))"

definition rem_cols :: "int list \<Rightarrow> int \<Rightarrow> nat \<Rightarrow> int" where
  "rem_cols cs mn d = (let last_pr_minus1 = (if d > 0 then d - 1 else 0) in \<bar>mn - cs ! last_pr_minus1\<bar>)"

definition diag_start ::
  "int list list \<Rightarrow> int list \<Rightarrow> int \<Rightarrow> py_error + (int \<times> int list \<times> nat \<times> int)" where
  "diag_start lm g s =
     bindE (tensor_column lm s) (\<lambda>col.
     bindE (gshape_min g) (\<lambda>mn.
       let cs = cumsum col
       in bindE (first_reaching cs mn) (\<lambda>d. Inr (mn, cs, d, rem_cols cs mn d))))"

definition diag_start_unsplit :: "int list list \<Rightarrow> int list \<Rightarrow> py_error + (int list \<times> nat \<times> int)" where
  "diag_start_unsplit lm g =
     bindE (gshape_min g) (\<lambda>mn.
       let css = map (\<lambda>j. cumsum (map (\<lambda>row. row ! j) lm)) [0..<map_columns lm];
           reached = filter (\<lambda>r. \<exists>cs\<in>set css. mn \<le> cs ! r) [0..<length lm]
       in case reached of
            [] \<Rightarrow> Inl IndexError
          | d # _ \<Rightarrow>
              if map_columns lm = 1 then Inr (hd css, d, rem_cols (hd css) mn d)
              else Inl RuntimeError)"

text \<open>
  The loop of lines 82--90. With a negative number of tiles the condition stays true and
  the loop does not end: the result \<open>None\<close>.
\<close>

partial_function (option) last_tile_cols_loop ::
  "tensor_division \<Rightarrow> int \<Rightarrow> int \<Rightarrow> (py_error + int) option" where
  "last_tile_cols_loop dm rem_cols_last_pr last_tile_cols =
     (case div_less dm rem_cols_last_pr last_tile_cols 2 of
        Inl e \<Rightarrow> Some (Inl e)
      | Inr continue \<Rightarrow>
          if \<not> continue then Some (Inr last_tile_cols)
          else if last_tile_cols - 1 = 1 then Some (Inr (last_tile_cols - 1))
          else last_tile_cols_loop dm rem_cols_last_pr (last_tile_cols - 1))"

text \<open>
  The spec's words for the loop: start from \<open>tiles_per_process\<close> and decrement while the
  remaining element count is less than twice the candidate tile count, floor at 1.
\<close>

function last_tile_cols_spec :: "int \<Rightarrow> int \<Rightarrow> int" where
  "last_tile_cols_spec remaining candidate =
     (if 1 < candidate \<and> remaining < 2 * candidate
      then last_tile_cols_spec remaining (candidate - 1)
      else max 1 candidate)"
  by pat_completeness auto
termination
  by (relation "measure (\<lambda>(remaining, candidate). nat candidate)") auto

text \<open>The body of the loop of lines 108--116: the size of tile column \<open>col\<close>.\<close>

definition col_size :: "int \<Rightarrow> nat \<Rightarrow> int \<Rightarrow> int list \<Rightarrow> int \<Rightarrow> py_error + int" where
  "col_size tile_per_proc d last_tile_cols diag_crossings col =
     (if tile_per_proc = 0 then Inl ZeroDivisionError
      else
        bindE (py_index diag_crossings (col div tile_per_proc + 1)) (\<lambda>hi.
        bindE (py_index diag_crossings (col div tile_per_proc)) (\<lambda>lo.
          chunk (hi - lo) (col mod tile_per_proc)
            (if col div tile_per_proc \<noteq> int d then tile_per_proc else last_tile_cols))))"

text \<open>
  Lines 118--123: \<^verbatim>\<open>row_inds\<close> starts as \<^verbatim>\<open>tile_per_proc * size\<close> zeros, overwritten from the
  front by the column sizes.
\<close>

definition rows_from_cols :: "int \<Rightarrow> nat \<Rightarrow> int list \<Rightarrow> py_error + int list" where
  "rows_from_cols tile_per_proc sz cols =
     (let total_tile_rows = nat (tile_per_proc * int sz)
      in if length cols \<le> total_tile_rows
         then Inr (cols @ replicate (total_tile_rows - length cols) 0)
         else Inl IndexError)"

text \<open>Lines 133--146, for \<open>split = 0\<close> and a last diagonal rank that is not the last rank.\<close>

definition rows_after_diag ::
  "tensor_division \<Rightarrow> int list list \<Rightarrow> int \<Rightarrow> nat \<Rightarrow> int \<Rightarrow> int list \<times> int list
     \<Rightarrow> py_error + (int list \<times> int list)" where
  "rows_after_diag dm lm g1 d tile_cols st =
     (case st of (rows, rpp) \<Rightarrow>
        bindE (tensor_column lm 0) (\<lambda>col0.
        bindE (py_index (cumsum col0) (int d)) (\<lambda>c.
          let diff = c - g1
          in bindE (py_index lm (int d)) (\<lambda>shape.
             bindE (py_index shape 0) (\<lambda>l0.
               if greater_half dm diff l0
               then bindE (py_index rpp (int d)) (\<lambda>n.
                    bindE (py_setitem rpp (int d) (n + 1)) (\<lambda>rpp'.
                      Inr (py_insert rows tile_cols diff, rpp')))
               else bindE (py_index rows (tile_cols - 1)) (\<lambda>x.
                    bindE (py_setitem rows (tile_cols - 1) (x + diff)) (\<lambda>rows'.
                      Inr (rows', rpp))))))))"

text \<open>
  The loop of lines 153--163, for \<open>split = 1\<close> and more columns than rows; its state is
  \<^verbatim>\<open>col_per_proc_list\<close> and \<^verbatim>\<open>col_inds\<close>. \<open>col_proc_ind\<close> is computed once, before the loop.
\<close>

fun extend_cols ::
  "int list list \<Rightarrow> nat \<Rightarrow> int list \<Rightarrow> nat list \<Rightarrow> int list \<times> int list
     \<Rightarrow> py_error + (int list \<times> int list)" where
  "extend_cols lm d col_proc_ind [] st = Inr st"
| "extend_cols lm d col_proc_ind (pr # prs) st =
     (case st of (cpp, cols) \<Rightarrow>
        bindE (tensor_column lm 1) (\<lambda>col1.
        bindE (py_index (cumsum col1) (int pr)) (\<lambda>a.
        bindE (py_index col_proc_ind (int pr)) (\<lambda>ci.
        bindE (py_index (cumsum cols) (ci - 1)) (\<lambda>b.
          let diff = a - b
          in bindE (if diff > 0 \<and> pr \<le> d
                    then bindE (py_index cpp (int pr)) (\<lambda>n.
                         bindE (py_setitem cpp (int pr) (n + 1)) (\<lambda>cpp'.
                           Inr (cpp', py_insert cols ci diff)))
                    else Inr (cpp, cols)) (\<lambda>(cpp1, cols1).
             extend_cols lm d col_proc_ind prs
               (cpp1, if pr > d \<and> diff > 0 then py_insert cols1 ci diff else cols1)))))))"

text \<open>
  The loops of lines 203--209, for more rows than columns: for each rank \<open>i\<close> after the
  last diagonal rank and each \<open>t < tile_per_proc\<close>, the first zero entry of \<^verbatim>\<open>row_inds\<close> that
  is left in \<open>nz\<close> takes the chunk \<open>t\<close> of the local rows of rank \<open>i\<close>.
\<close>

fun fill_rows ::
  "int list list \<Rightarrow> int \<Rightarrow> (nat \<times> nat) list \<Rightarrow> int list \<times> nat list
     \<Rightarrow> py_error + (int list \<times> nat list)" where
  "fill_rows lm tile_per_proc [] st = Inr st"
| "fill_rows lm tile_per_proc ((i, t) # rest) st =
     (case st of (rows, nz) \<Rightarrow>
        bindE (py_index lm (int i)) (\<lambda>shape.
        bindE (py_index shape 0) (\<lambda>l0.
        bindE (chunk l0 (int t) tile_per_proc) (\<lambda>x.
          case nz of
            [] \<Rightarrow> Inl IndexError
          | z # nz' \<Rightarrow> fill_rows lm tile_per_proc rest (rows[z := x], nz')))))"

definition fill_rows_all :: "int list list \<Rightarrow> int \<Rightarrow> nat \<Rightarrow> nat \<Rightarrow> int list \<Rightarrow> py_error + int list" where
  "fill_rows_all lm tile_per_proc d sz rows =
     (let nz = filter (\<lambda>k. rows ! k = 0) [0..<length rows];
          steps = concat (map (\<lambda>i. map (\<lambda>t. (i, t)) [0..<nat tile_per_proc]) [d + 1..<sz])
      in bindE (fill_rows lm tile_per_proc steps (rows, nz)) (\<lambda>(rows', nz'). Inr rows'))"

text \<open>
  Lines 218--232, for \<open>split = 1\<close> and more rows than columns. Above the threshold of 10
  the loop of line 223 does not run (\<^verbatim>\<open>num_ex_row_tiles\<close> stays 1), and one tile of all the
  remaining rows is appended.
\<close>

definition extra_rows :: "int \<Rightarrow> int \<Rightarrow> int list \<Rightarrow> py_error + int list" where
  "extra_rows g0 g1 rows =
     (if g0 - g1 > 10
      then bindE (chunk (g0 - g1) 0 1) (\<lambda>x. Inr (rows @ [x]))
      else py_setitem rows (- 1) (g0 - sum_list (butlast rows)))"

text \<open>
  Lines 244--248: the boundary arrays are the cumulative sums of the tile sizes without
  the last one, after a leading 0.
\<close>

definition boundaries :: "int list \<Rightarrow> int list" where
  "boundaries sizes = cumsum (0 # butlast sizes)"

text \<open>
  Lines 256--274: the rank entries of the tile map. A slice assignment
  \<^verbatim>\<open>tile_map[lo:hi, :, 2] = p\<close> changes the rows the slice selects; \<open>assign_ranks\<close> runs a
  list of such assignments in order over the ranks of the rows (for \<open>split = 0\<close>) or of the
  columns (for \<open>split = 1\<close>), which start as zeros.
\<close>

fun assign_ranks :: "(int \<times> int \<times> int) list \<Rightarrow> int list \<Rightarrow> int list" where
  "assign_ranks [] ranks = ranks"
| "assign_ranks ((lo, hi, p) # rest) ranks =
     (let (a, b) = py_slice_bounds (Some lo) (Some hi) (length ranks)
      in assign_ranks rest
           (map (\<lambda>i. if a \<le> i \<and> i < b then p else ranks ! i) [0..<length ranks]))"

definition row_assignments :: "int \<Rightarrow> nat \<Rightarrow> nat \<Rightarrow> (int \<times> int \<times> int) list" where
  "row_assignments tile_per_proc d sz =
     map (\<lambda>p. (tile_per_proc * int p, tile_per_proc * (int p + 1), int p)) [0..<d]
     @ [(tile_per_proc * int d, tile_per_proc * int d + tile_per_proc, int d)]
     @ map (\<lambda>p. (tile_per_proc * int d + tile_per_proc + tile_per_proc * int p,
                  tile_per_proc * int d + tile_per_proc + tile_per_proc * int p
                    + tile_per_proc * (int p + 1),
                  int p + int d + 1))
         [0..<sz - d + 1]"

definition col_assignments :: "int list \<Rightarrow> (int \<times> int \<times> int) list" where
  "col_assignments cpp =
     map (\<lambda>pr. (sum_list (take pr cpp), sum_list (take pr cpp) + cpp ! pr, int pr))
       [0..<length cpp]"

definition make_tile_map ::
  "int option \<Rightarrow> int \<Rightarrow> nat \<Rightarrow> nat \<Rightarrow> int list \<Rightarrow> int list \<Rightarrow> int list
     \<Rightarrow> (int \<times> int \<times> int) list list" where
  "make_tile_map s tile_per_proc d sz cpp row_b col_b =
     (let row_ranks = (if s = Some 0
                       then assign_ranks (row_assignments tile_per_proc d sz)
                              (replicate (length row_b) 0)
                       else replicate (length row_b) 0);
          col_ranks = (if s = Some 1
                       then assign_ranks (col_assignments cpp) (replicate (length col_b) 0)
                       else replicate (length col_b) 0)
      in map (\<lambda>i. map (\<lambda>j. (row_b ! i, col_b ! j,
                              if s = Some 0 then row_ranks ! i else col_ranks ! j))
                     [0..<length col_b])
           [0..<length row_b])"

text \<open>Lines 92--302, after the loop has set \<^verbatim>\<open>last_tile_cols\<close>.\<close>

definition init_tiles ::
  "tensor_division \<Rightarrow> 'a DNDarray \<Rightarrow> int \<Rightarrow> int list list \<Rightarrow> int \<Rightarrow> int list \<Rightarrow> nat \<Rightarrow> int
     \<Rightarrow> py_error + 'a tiles" where
  "init_tiles dm a tile_per_proc lm mn cs d last_tile_cols =
     (let sz = comm_size a; g = gshape a; s = split a;
          cpp0 = (replicate (d + 1) tile_per_proc)[d := last_tile_cols];
          cpp1 = (if int d < int sz - 1 \<and> s = Some 1
                  then cpp0 @ replicate (sz - d - 1) 1 else cpp0);
          rpp0 = replicate sz tile_per_proc;
          tile_cols = tile_per_proc * int d + last_tile_cols;
          crossings = take (d + 1) cs;
          diag_crossings = 0 # crossings[d := (if crossings ! d \<le> mn then crossings ! d else mn)]
      in
      bindE (mapE (col_size tile_per_proc d last_tile_cols diag_crossings)
               (map int [0..<nat tile_cols])) (\<lambda>cols0.
      bindE (rows_from_cols tile_per_proc sz cols0) (\<lambda>rows0.
      bindE (py_index g 0) (\<lambda>g0.
      bindE (py_index g 1) (\<lambda>g1.
      bindE (if g0 < g1 \<and> s = Some 0
             then py_setitem cols0 (- 1) (g1 - sum_list (butlast cols0))
             else Inr cols0) (\<lambda>cols1.
      bindE (if int d < int sz - 1 \<and> s = Some 0
             then rows_after_diag dm lm g1 d tile_cols (rows0, rpp0)
             else Inr (rows0, rpp0)) (\<lambda>(rows1, rpp1).
      bindE (if s = Some 1 \<and> g1 > g0
             then extend_cols lm d (cumsum cpp1) [0..<sz] (cpp1, cols1)
             else Inr (cpp1, cols1)) (\<lambda>(cpp2, cols2).
      bindE (if g0 > g1 then fill_rows_all lm tile_per_proc d sz rows1 else Inr rows1) (\<lambda>rows2.
      bindE (if g0 > g1 \<and> s = Some 1 then extra_rows g0 g1 rows2 else Inr rows2) (\<lambda>rows3.
        let rows4 = (if g0 < g1 then filter (\<lambda>x. x \<noteq> 0) rows3 else rows3);
            col_b = boundaries cols2;
            row_b = boundaries rows4
        in if cols2 = [] \<or> rows4 = [] then Inl IndexError
           else Inr \<lparr>arr = a,
                     tile_columns_per_process =
                       (if s = Some 1 then cpp2 else replicate (length cpp2) (int (length col_b))),
                     lshape_map = lm,
                     last_diagonal_process = int d,
                     tile_rows_per_process =
                       (if s = Some 0 then rpp1 else replicate (length rpp1) (int (length row_b))),
                     tile_map = make_tile_map s tile_per_proc d sz cpp2 row_b col_b,
                     row_indices = row_b,
                     col_indices = col_b,
                     tile_columns = length col_b,
                     tile_rows = length row_b\<rparr>))))))))))"

text \<open>
  The constructor. \<open>lshape_map_arg\<close> is the optional argument \<^verbatim>\<open>lshape_map\<close>; without it the
  map is gathered from the ranks. The result \<open>None\<close> is a call that does not return.
\<close>

definition SquareDiagTiles_init ::
  "tensor_division \<Rightarrow> 'a py_object \<Rightarrow> int \<Rightarrow> int list list option
     \<Rightarrow> (py_error + 'a tiles) option" where
  "SquareDiagTiles_init dm obj tile_per_proc lshape_map_arg =
     (case obj of
        Other_object \<Rightarrow> Some (Inl TypeError)
      | DNDarray_object a \<Rightarrow>
          (let lm = (case lshape_map_arg of None \<Rightarrow> comm_lshapes a | Some m \<Rightarrow> m)
           in case split a of
                None \<Rightarrow>
                  (case diag_start_unsplit lm (gshape a) of
                     Inl e \<Rightarrow> Some (Inl e)
                   | Inr (cs, d, rem_cols_last_pr) \<Rightarrow>
                       (case last_tile_cols_loop dm rem_cols_last_pr tile_per_proc of
                          None \<Rightarrow> None
                        | Some r \<Rightarrow> Some (Inl RuntimeError)))
              | Some s \<Rightarrow>
                  (case diag_start lm (gshape a) s of
                     Inl e \<Rightarrow> Some (Inl e)
                   | Inr (mn, cs, d, rem_cols_last_pr) \<Rightarrow>
                       (case last_tile_cols_loop dm rem_cols_last_pr tile_per_proc of
                          None \<Rightarrow> None
                        | Some (Inl e) \<Rightarrow> Some (Inl e)
                        | Some (Inr last_tile_cols) \<Rightarrow>
                            Some (init_tiles dm a tile_per_proc lm mn cs d last_tile_cols)))))"

subsection \<open>An array and its tiling to run the accessors on\<close>

text \<open>
  An 8 x 8 array of zeros, split along the rows over two processes, seen from the process
  \<open>rank\<close>, and the object the constructor builds for it with two tiles per process: four
  tile rows and four tile columns of size 2, the first two tile rows on rank 0 and the
  last two on rank 1.
\<close>

definition example_array :: "nat \<Rightarrow> int DNDarray" where
  "example_array rank =
     \<lparr>gshape = [8, 8], split = Some 0, comm_size = 2, comm_rank = rank,
      comm_lshapes = [[4, 8], [4, 8]], larray = replicate 4 (replicate 8 0)\<rparr>"

definition example_tiles :: "nat \<Rightarrow> int tiles" where
  "example_tiles rank =
     \<lparr>arr = example_array rank,
      tile_columns_per_process = [4, 4],
      lshape_map = [[4, 8], [4, 8]],
      last_diagonal_process = 1,
      tile_rows_per_process = [2, 2],
      tile_map = map (\<lambda>(r, p). map (\<lambda>c. (r, c, p)) [0, 2, 4, 6]) [(0, 0), (2, 0), (4, 1), (6, 1)],
      row_indices = [0, 2, 4, 6],
      col_indices = [0, 2, 4, 6],
      tile_columns = 4,
      tile_rows = 4\<rparr>"

text \<open>
  An array of three dimensions (4 x 4 x 5, split along the first over two processes), an
  array of one dimension, and a square array on a single process.
\<close>

definition example_array_3d :: "int DNDarray" where
  "example_array_3d =
     \<lparr>gshape = [4, 4, 5], split = Some 0, comm_size = 2, comm_rank = 0,
      comm_lshapes = [[2, 4, 5], [2, 4, 5]], larray = []\<rparr>"

definition example_array_1d :: "int DNDarray" where
  "example_array_1d =
     \<lparr>gshape = [16], split = Some 0, comm_size = 2, comm_rank = 0,
      comm_lshapes = [[8], [8]], larray = []\<rparr>"

definition example_array_single :: "int DNDarray" where
  "example_array_single =
     \<lparr>gshape = [4, 4], split = Some 0, comm_size = 1, comm_rank = 0,
      comm_lshapes = [[4, 4]], larray = replicate 4 (replicate 4 0)\<rparr>"

subsection \<open>The tiles of a boundary array\<close>

text \<open>
  The half-open ranges between consecutive boundaries, with the final boundary at the
  global extent, as \<^verbatim>\<open>get_start_stop\<close> reads a boundary array (lines 418--419 append the
  global extent, lines 446--447 take the entries \<open>i\<close> and \<open>i + 1\<close>). \<open>in_range\<close> says that the range
  of tile \<open>i\<close> holds the index \<open>x\<close>.
\<close>

definition ranges :: "int list \<Rightarrow> int \<Rightarrow> (int \<times> int) list" where
  "ranges bs extent = zip bs (tl bs @ [extent])"

definition in_range :: "int list \<Rightarrow> int \<Rightarrow> nat \<Rightarrow> int \<Rightarrow> bool" where
  "in_range bs extent i x \<longleftrightarrow>
     i < length bs \<and> fst (ranges bs extent ! i) \<le> x \<and> x < snd (ranges bs extent ! i)"

text \<open>
  A 4 x 4 array split along the rows over four processes (one row each), and three
  arrays split along the columns: 4 x 8 over two processes, 6 x 30 over three, and
  4 x 16 over four.
\<close>

definition example_array_thin :: "int DNDarray" where
  "example_array_thin =
     \<lparr>gshape = [4, 4], split = Some 0, comm_size = 4, comm_rank = 0,
      comm_lshapes = [[1, 4], [1, 4], [1, 4], [1, 4]], larray = [[0, 0, 0, 0]]\<rparr>"

definition example_array_wide2 :: "int DNDarray" where
  "example_array_wide2 =
     \<lparr>gshape = [4, 8], split = Some 1, comm_size = 2, comm_rank = 0,
      comm_lshapes = [[4, 4], [4, 4]], larray = replicate 4 (replicate 4 0)\<rparr>"

definition example_array_wide30 :: "int DNDarray" where
  "example_array_wide30 =
     \<lparr>gshape = [6, 30], split = Some 1, comm_size = 3, comm_rank = 0,
      comm_lshapes = [[6, 10], [6, 10], [6, 10]], larray = replicate 6 (replicate 10 0)\<rparr>"

definition example_array_wide :: "int DNDarray" where
  "example_array_wide =
     \<lparr>gshape = [4, 16], split = Some 1, comm_size = 4, comm_rank = 0,
      comm_lshapes = [[4, 4], [4, 4], [4, 4], [4, 4]], larray = replicate 4 (replicate 4 0)\<rparr>"

section \<open>Verification of the gradient synchronizer\<close>

lemma bindE_simps [simp]: "bindE (Inl e) f = Inl e" "bindE (Inr x) f = f x"
  by (simp_all add: bindE_def)

lemma bindE_eq_Inr: "bindE m f = Inr y \<longleftrightarrow> (\<exists>x. m = Inr x \<and> f x = Inr y)"
  by (cases m) simp_all

subsection \<open>Construction in non-blocking mode\<close>

text \<open>
  C10. For every module with at least one named parameter, constructing DataParallel with
  an optimizer whose parameter list is the module's raises TypeError: registering the
  hook of the first parameter calls \<^verbatim>\<open>nonblocking_hook\<close> with two arguments, and the method
  takes one. No object is constructed.
\<close>

lemma items_differ_same: "items_differ eq_truth xs xs = Inr False"
  by (induction xs) simp_all

theorem nonblocking_init_raises:
  assumes "named_parameters \<noteq> []" and "optimizer = Some ps" and "map snd named_parameters = ps"
  shows "DataParallel_init eq_truth named_parameters optimizer = Inl TypeError"
proof -
  obtain name param rest where np: "named_parameters = (name, param) # rest"
    using assms(1) by (cases named_parameters) auto
  have "init_loop True 0 named_parameters 0 None self = Inl TypeError" for self :: "'a data_parallel"
    by (simp add: np nonblocking_hook_def Let_def)
  then show ?thesis
    using assms(2,3) by (simp add: DataParallel_init_def Let_def list_ne_def items_differ_same)
qed

theorem nonblocking_init_raises_witness:
  "[(''net1.weight'', 0::nat)] \<noteq> [] \<and>
   DataParallel_init (\<lambda>x y. Inl RuntimeError) [(''net1.weight'', 0::nat)] (Some [0])
     = Inl TypeError"
  using nonblocking_init_raises
          [of "[(''net1.weight'', 0::nat)]" "Some [0]" "[0]" "\<lambda>x y. Inl RuntimeError"]
  by simp

subsection \<open>Blocking hook\<close>

text \<open>Bit lengths.\<close>

lemma bitlen_nonpos [simp]: "m \<le> 0 \<Longrightarrow> bitlen m = 0"
  by (simp add: bitlen.simps)

lemma bitlen_bounds: "0 < m \<Longrightarrow> 2 ^ (bitlen m - 1) \<le> m \<and> m < 2 ^ bitlen m"
proof (induction m rule: bitlen.induct)
  case (1 m)
  show ?case
  proof (cases "m div 2 \<le> 0")
    case True
    then have "m = 1" using 1(2) by linarith
    then show ?thesis by (simp add: bitlen.simps[of 1])
  next
    case False
    then have pos: "0 < m div 2" by simp
    have IH: "2 ^ (bitlen (m div 2) - 1) \<le> m div 2 \<and> m div 2 < 2 ^ bitlen (m div 2)"
      using 1(1) 1(2) pos by simp
    have b: "bitlen m = Suc (bitlen (m div 2))" using 1(2) by (simp add: bitlen.simps[of m])
    have "0 < bitlen (m div 2)" using pos by (simp add: bitlen.simps[of "m div 2"])
    then have s: "bitlen (m div 2) = Suc (bitlen (m div 2) - 1)" by simp
    have "2 ^ bitlen (m div 2) = (2::int) * 2 ^ (bitlen (m div 2) - 1)"
      by (subst s) simp
    then have "2 ^ bitlen (m div 2) \<le> m" using IH by linarith
    moreover have "m < 2 * 2 ^ bitlen (m div 2)" using IH by linarith
    ultimately show ?thesis by (simp add: b)
  qed
qed

lemma bitlen_le_iff:
  assumes "0 \<le> m"
  shows "bitlen m \<le> k \<longleftrightarrow> m < 2 ^ k"
proof (cases "m = 0")
  case True
  then show ?thesis by simp
next
  case False
  then have pos: "0 < m" using assms by simp
  note b = bitlen_bounds[OF pos]
  show ?thesis
  proof
    assume "bitlen m \<le> k"
    then have "(2::int) ^ bitlen m \<le> 2 ^ k" by (simp add: power_increasing)
    with b show "m < 2 ^ k" by linarith
  next
    assume "m < 2 ^ k"
    with b have "(2::int) ^ (bitlen m - 1) < 2 ^ k" by linarith
    then have "bitlen m - 1 < k" by simp
    then show "bitlen m \<le> k" by simp
  qed
qed



lemma round_shift_0 [simp]: "round_shift m 0 = m"
  by (simp add: round_shift_def)


text \<open>Values.\<close>

lemma two_powi_pos [simp]: "0 < (2::real) powi e"
  by (simp add: zero_less_power_int)

lemma two_powi_add: "(2::real) powi (a + b) = 2 powi a * 2 powi b"
  by (simp add: power_int_add)





lemma fval_0 [simp]: "fval 0 e = 0"
  by (simp add: fval_def)

lemma abs_fval: "\<bar>fval m e\<bar> = of_int \<bar>m\<bar> * 2 powi e"
  by (simp add: fval_def abs_mult)





lemma bitlen_fval_upper: "\<bar>fval m e\<bar> < 2 powi (int (bitlen \<bar>m\<bar>) + e)"
proof -
  have "\<bar>m\<bar> < 2 ^ bitlen \<bar>m\<bar>" using bitlen_le_iff[of "\<bar>m\<bar>" "bitlen \<bar>m\<bar>"] by simp
  then have "of_int \<bar>m\<bar> < (2::real) ^ bitlen \<bar>m\<bar>"
    by (metis of_int_less_iff of_int_numeral of_int_power)
  then have "of_int \<bar>m\<bar> * 2 powi e < (2::real) ^ bitlen \<bar>m\<bar> * 2 powi e"
    by (simp add: mult_strict_right_mono)
  then show ?thesis by (simp add: abs_fval two_powi_add)
qed























subsection \<open>Non-blocking hook\<close>

declare bisect_right.simps [simp del]

lemma tuple_lt_True: "tuple_lt hlt x y = Inr True \<Longrightarrow> fst x \<le> fst y"
  by (auto simp: tuple_lt_def split: if_splits option.splits)

lemma tuple_lt_False: "tuple_lt hlt x y = Inr False \<Longrightarrow> fst y \<le> fst x"
  by (auto simp: tuple_lt_def split: if_splits option.splits)

lemma tuple_lt_distinct: "fst x \<noteq> fst y \<Longrightarrow> tuple_lt hlt x y = Inr (fst x < fst y)"
  by (simp add: tuple_lt_def)

lemma bisect_right_bounds:
  assumes "sorted (map fst a)" and "hi \<le> length a" and "lo \<le> hi"
    and "\<forall>k<lo. fst (a ! k) \<le> fst x"
    and "\<forall>k. hi \<le> k \<and> k < length a \<longrightarrow> fst x \<le> fst (a ! k)"
    and "bisect_right hlt a x lo hi = Inr i"
  shows "i \<le> length a \<and> (\<forall>k<i. fst (a ! k) \<le> fst x)
       \<and> (\<forall>k. i \<le> k \<and> k < length a \<longrightarrow> fst x \<le> fst (a ! k))"
  using assms
proof (induction hlt a x lo hi rule: bisect_right.induct)
  case (1 hlt a x lo hi)
  show ?case
  proof (cases "lo < hi")
    case False
    with "1.prems" have "i = lo" by (simp add: bisect_right.simps)
    with "1.prems" False show ?thesis by auto
  next
    case True
    define mid where "mid = (lo + hi) div 2"
    have mid: "lo \<le> mid" "mid < hi" "mid < length a"
      using True "1.prems"(2) by (auto simp: mid_def)
    have srt: "\<And>j k. j \<le> k \<Longrightarrow> k < length a \<Longrightarrow> fst (a ! j) \<le> fst (a ! k)"
      using "1.prems"(1) by (simp add: sorted_iff_nth_mono)
    consider (e) e where "tuple_lt hlt x (a ! mid) = Inl e"
      | (t) "tuple_lt hlt x (a ! mid) = Inr True"
      | (f) "tuple_lt hlt x (a ! mid) = Inr False"
      by (cases "tuple_lt hlt x (a ! mid)") auto
    then show ?thesis
    proof cases
      case e
      with True "1.prems"(6) show ?thesis
        by (simp add: bisect_right.simps[of hlt a x lo hi] mid_def Let_def)
    next
      case t
      then have rec: "bisect_right hlt a x lo mid = Inr i"
        using True "1.prems"(6)
        by (simp add: bisect_right.simps[of hlt a x lo hi] mid_def Let_def)
      have up: "\<forall>k. mid \<le> k \<and> k < length a \<longrightarrow> fst x \<le> fst (a ! k)"
        using tuple_lt_True[OF t] srt by (meson order_trans)
      have "lo \<le> mid" by (rule mid)
      show ?thesis
        by (rule "1.IH"(1)[OF True refl _ _ "1.prems"(1)])
           (use t rec mid "1.prems" up in \<open>auto simp: mid_def\<close>)
    next
      case f
      then have rec: "bisect_right hlt a x (mid + 1) hi = Inr i"
        using True "1.prems"(6)
        by (simp add: bisect_right.simps[of hlt a x lo hi] mid_def Let_def)
      have lowb: "\<forall>k<mid + 1. fst (a ! k) \<le> fst x"
      proof (intro allI impI)
        fix k assume "k < mid + 1"
        then have "fst (a ! k) \<le> fst (a ! mid)" using srt[of k mid] mid by simp
        then show "fst (a ! k) \<le> fst x" using tuple_lt_False[OF f] by simp
      qed
      show ?thesis
        by (rule "1.IH"(2)[OF True refl _ _ "1.prems"(1)])
           (use f rec mid "1.prems" lowb in \<open>auto simp: mid_def\<close>)
    qed
  qed
qed


lemma bisect_right_total:
  assumes "\<forall>y\<in>set a. fst y \<noteq> fst x" and "hi \<le> length a"
  shows "\<exists>i. bisect_right hlt a x lo hi = Inr i"
  using assms
proof (induction hlt a x lo hi rule: bisect_right.induct)
  case (1 hlt a x lo hi)
  show ?case
  proof (cases "lo < hi")
    case False
    then show ?thesis by (simp add: bisect_right.simps)
  next
    case True
    define mid where "mid = (lo + hi) div 2"
    have mid: "mid < hi" "mid < length a"
      using True "1.prems"(2) by (auto simp: mid_def)
    then have ne: "fst x \<noteq> fst (a ! mid)" using "1.prems"(1) by (metis nth_mem)
    have tl: "tuple_lt hlt x (a ! mid) = Inr (fst x < fst (a ! mid))"
      by (rule tuple_lt_distinct[OF ne])
    show ?thesis
    proof (cases "fst x < fst (a ! mid)")
      case lt: True
      have "\<exists>i. bisect_right hlt a x lo mid = Inr i"
        using "1.IH"(1)[OF True mid_def tl] lt mid "1.prems"(1) by (auto simp: mid_def)
      then show ?thesis
        using True tl lt by (simp add: bisect_right.simps[of hlt a x lo hi] mid_def Let_def)
    next
      case ge: False
      have "\<exists>i. bisect_right hlt a x (mid + 1) hi = Inr i"
        using "1.IH"(2)[OF True mid_def tl] ge mid "1.prems" by (auto simp: mid_def)
      then show ?thesis
        using True tl ge by (simp add: bisect_right.simps[of hlt a x lo hi] mid_def Let_def)
    qed
  qed
qed

lemma sorted_insert_at:
  assumes "sorted (map fst a)" and "i \<le> length a"
    and "\<forall>k<i. fst (a ! k) \<le> fst x"
    and "\<forall>k. i \<le> k \<and> k < length a \<longrightarrow> fst x \<le> fst (a ! k)"
  shows "sorted (map fst (take i a @ [x] @ drop i a))"
proof -
  have t: "\<forall>y\<in>set (take i a). fst y \<le> fst x"
  proof
    fix y assume "y \<in> set (take i a)"
    then obtain k where "k < length (take i a)" "take i a ! k = y"
      by (auto simp: in_set_conv_nth)
    then have "k < i" "y = a ! k" by auto
    then show "fst y \<le> fst x" using assms(3) by simp
  qed
  have d: "\<forall>y\<in>set (drop i a). fst x \<le> fst y"
  proof
    fix y assume "y \<in> set (drop i a)"
    then obtain k where k: "k < length (drop i a)" "drop i a ! k = y"
      by (auto simp: in_set_conv_nth)
    then have "i + k < length a" "y = a ! (i + k)" using assms(2) by auto
    then show "fst x \<le> fst y" using assms(4) by simp
  qed
  have "sorted (map fst (take i a @ drop i a))" using assms(1) by simp
  then have "sorted (map fst (take i a))" "sorted (map fst (drop i a))"
    "\<forall>y\<in>set (take i a). \<forall>z\<in>set (drop i a). fst y \<le> fst z"
    unfolding map_append sorted_append by auto
  with t d show ?thesis
    unfolding map_append sorted_append by (auto simp: order_trans)
qed

lemma insort_sorted:
  assumes "sorted (map fst a)" and "insort hlt a x = Inr a'"
  shows "sorted (map fst a') \<and> (\<exists>i\<le>length a. a' = take i a @ [x] @ drop i a)"
proof -
  from assms(2) obtain i where i: "bisect_right hlt a x 0 (length a) = Inr i"
    and a': "a' = take i a @ [x] @ drop i a"
    by (auto simp: insort_def bindE_eq_Inr)
  have b: "i \<le> length a \<and> (\<forall>k<i. fst (a ! k) \<le> fst x)
       \<and> (\<forall>k. i \<le> k \<and> k < length a \<longrightarrow> fst x \<le> fst (a ! k))"
    by (rule bisect_right_bounds[OF assms(1) _ _ _ _ i]) auto
  then show ?thesis using sorted_insert_at[OF assms(1), of i x] a' by blast
qed

lemma insort_distinct:
  assumes "sorted (map fst a)" and "\<forall>y\<in>set a. fst y \<noteq> fst x"
  shows "insort hlt a x = Inr (stable_insert_spec a x)"
proof -
  obtain i where i: "bisect_right hlt a x 0 (length a) = Inr i"
    using bisect_right_total[OF assms(2), of "length a" hlt 0] by auto
  have b: "i \<le> length a \<and> (\<forall>k<i. fst (a ! k) \<le> fst x)
       \<and> (\<forall>k. i \<le> k \<and> k < length a \<longrightarrow> fst x \<le> fst (a ! k))"
    by (rule bisect_right_bounds[OF assms(1) _ _ _ _ i]) auto
  have tw: "takeWhile (\<lambda>y. fst y \<le> fst x) a = take i a"
  proof (rule takeWhile_eq_take_P_nth)
    fix k assume "k < i" "k < length a"
    then show "fst (a ! k) \<le> fst x" using b by simp
  next
    assume "i < length a"
    then have "fst x \<le> fst (a ! i)" "a ! i \<in> set a"
      using b by simp_all
    then show "\<not> fst (a ! i) \<le> fst x" using assms(2) by fastforce
  qed
  have "length (takeWhile (\<lambda>y. fst y \<le> fst x) a) = i" using tw b by simp
  then have dw: "dropWhile (\<lambda>y. fst y \<le> fst x) a = drop i a"
    using dropWhile_eq_drop[of "\<lambda>y. fst y \<le> fst x" a] by simp
  show ?thesis by (simp add: insort_def i stable_insert_spec_def tw dw)
qed

lemma map_of_update_ran:
  assumes "\<forall>q\<in>snd ` set al. P q" and "P v"
  shows "\<forall>q\<in>snd ` set (AList.update k v al). P q"
  using assms by (induction al) (auto split: if_splits)

text \<open>
  C7. The queue of a layer is to stay ascending by size, with each new pair at the stable
  position: after the pairs of equal size. \<^verbatim>\<open>bisect.insort\<close> is that insertion for the
  sizes, but line 192 hands it the whole (size, handle) tuples, so two pairs of equal size
  are compared by their handles. With a handle class that defines no ordering, as the
  request objects of the communicator, the second gradient of a size raises TypeError
  and its pair is not queued; with handles that have an ordering the new pair goes
  before an old one of equal size whenever its handle is the smaller.
\<close>

theorem hook_nonblocking_stable_counterexample:
  "hook_nonblocking no_ordering [(''a'', [(4, 7)])] ''a'' [2, 2] 9 = Inl TypeError \<and>
   hook_nonblocking nat_ordering [(''a'', [(4, 7)])] ''a'' [2, 2] 5
     = Inr [(''a'', [(4, 5), (4, 7)])] \<and>
   stable_insert_spec [(4, 7)] (4, 5 :: nat) = [(4, 7), (4, 5)]"
  by (simp add: hook_nonblocking_def insort_def bisect_right.simps tuple_lt_def size1D_def
      no_ordering_def nat_ordering_def stable_insert_spec_def)

text \<open>
  Away from ties the hook does what the spec says. When every queue is ascending by
  size, an invocation of the hook that returns leaves every queue ascending by size, and
  the queue of the layer is the old one with the new pair inserted at one position. When
  no pair of the layer's queue has the size of the new one, the invocation returns and
  the position is the stable one of the spec.
\<close>

theorem hook_nonblocking_sorted:
  assumes "\<forall>q\<in>snd ` set wait_handles. sorted (map fst q)"
  shows "(\<forall>wh'. hook_nonblocking hlt wait_handles layer_name shape wait_handle = Inr wh' \<longrightarrow>
            (\<forall>q\<in>snd ` set wh'. sorted (map fst q)) \<and>
            (\<exists>i. map_of wh' layer_name =
                 Some (take i (case map_of wait_handles layer_name of None \<Rightarrow> [] | Some q \<Rightarrow> q)
                       @ [(size1D shape, wait_handle)]
                       @ drop i (case map_of wait_handles layer_name of None \<Rightarrow> [] | Some q \<Rightarrow> q))))
       \<and> ((\<forall>y\<in>set (case map_of wait_handles layer_name of None \<Rightarrow> [] | Some q \<Rightarrow> q).
              fst y \<noteq> size1D shape) \<longrightarrow>
            (\<exists>wh'. hook_nonblocking hlt wait_handles layer_name shape wait_handle = Inr wh' \<and>
               map_of wh' layer_name =
                 Some (stable_insert_spec
                        (case map_of wait_handles layer_name of None \<Rightarrow> [] | Some q \<Rightarrow> q)
                        (size1D shape, wait_handle))))"
proof -
  define q0 where "q0 = (case map_of wait_handles layer_name of None \<Rightarrow> [] | Some q \<Rightarrow> q)"
  define wh1 where "wh1 = (if map_of wait_handles layer_name = None
                           then wait_handles @ [(layer_name, [])] else wait_handles)"
  have q1: "(case map_of wh1 layer_name of None \<Rightarrow> [] | Some q \<Rightarrow> q) = q0"
    by (auto simp: wh1_def q0_def map_add_def split: option.splits)
  have hk: "hook_nonblocking hlt wait_handles layer_name shape wait_handle =
      bindE (insort hlt q0 (size1D shape, wait_handle))
        (\<lambda>queue1. Inr (AList.update layer_name queue1 wh1))"
    by (simp add: hook_nonblocking_def Let_def q1 flip: wh1_def)
  have s1: "\<forall>q\<in>snd ` set wh1. sorted (map fst q)"
    using assms by (auto simp: wh1_def)
  have s0: "sorted (map fst q0)"
  proof (cases "map_of wait_handles layer_name")
    case None then show ?thesis by (simp add: q0_def)
  next
    case (Some q)
    then have "(layer_name, q) \<in> set wait_handles" by (rule map_of_SomeD)
    then have "q \<in> snd ` set wait_handles" by force
    with assms have "sorted (map fst q)" by blast
    with Some show ?thesis by (simp add: q0_def)
  qed
  have A: "(\<forall>q\<in>snd ` set wh'. sorted (map fst q)) \<and>
       (\<exists>i. map_of wh' layer_name = Some (take i q0 @ [(size1D shape, wait_handle)] @ drop i q0))"
    if "hook_nonblocking hlt wait_handles layer_name shape wait_handle = Inr wh'" for wh'
  proof -
    from that obtain q' where q': "insort hlt q0 (size1D shape, wait_handle) = Inr q'"
      and wh': "wh' = AList.update layer_name q' wh1"
      by (auto simp: hk bindE_eq_Inr)
    from insort_sorted[OF s0 q'] obtain i where
      "sorted (map fst q')" "q' = take i q0 @ [(size1D shape, wait_handle)] @ drop i q0"
      by blast
    then show ?thesis
      using map_of_update_ran[OF s1, of q' layer_name] by (auto simp: wh' update_conv')
  qed
  have B: "\<exists>wh'. hook_nonblocking hlt wait_handles layer_name shape wait_handle = Inr wh' \<and>
       map_of wh' layer_name = Some (stable_insert_spec q0 (size1D shape, wait_handle))"
    if "\<forall>y\<in>set q0. fst y \<noteq> size1D shape"
    using insort_distinct[OF s0, of "(size1D shape, wait_handle)" hlt] that
    by (simp add: hk update_conv')
  show ?thesis using A B unfolding q0_def by blast
qed

theorem hook_nonblocking_sorted_witness:
  "sorted (map fst [(4 :: nat, 7 :: nat)]) \<and>
   (\<exists>wh'. hook_nonblocking no_ordering [(''a'', [(4, 7)])] ''a'' [10, 10] 9 = Inr wh' \<and>
      map_of wh' ''a'' = Some [(4, 7), (100, 9)])"
  using hook_nonblocking_sorted [of "[(''a'', [(4, 7)])]" no_ordering "''a''" "[10, 10]" 9]
  by (simp add: size1D_def stable_insert_spec_def)

section \<open>Verification of the tile accessor\<close>

declare last_tile_cols_loop.simps [code]

lemma bindE_eq_Inl: "bindE m f = Inl e \<longleftrightarrow> m = Inl e \<or> (\<exists>x. m = Inr x \<and> f x = Inl e)"
  by (cases m) simp_all

text \<open>The constructor builds the example object, on either process.\<close>

lemma example_built:
  "SquareDiagTiles_init dm (DNDarray_object (example_array rank)) 2 None
     = Some (Inr (example_tiles rank))"
  by (cases dm; code_simp)

lemma example_ranks_row0:
  "tile_map_ranks (tile_map (example_tiles rank)) (KInt 0) = Inr [0, 0, 0, 0]"
  by code_simp

subsection \<open>Keys that cross processes\<close>

lemma unique_length_gt1: "1 < length (unique ranks) \<longleftrightarrow> (\<exists>a\<in>set ranks. \<exists>b\<in>set ranks. a \<noteq> b)"
proof -
  have "length (unique ranks) = card (set ranks)"
    by (simp add: unique_def length_remdups_card_conv)
  moreover have "1 < card (set ranks) \<longleftrightarrow> (\<exists>a\<in>set ranks. \<exists>b\<in>set ranks. a \<noteq> b)"
    by (metis List.finite_set card_le_Suc0_iff_eq not_less One_nat_def Suc_leI le_antisym less_Suc0 linorder_not_le)
  ultimately show ?thesis by simp
qed

lemma unique_singleton: "set ranks = {owner} \<Longrightarrow> unique ranks = [owner]"
proof -
  assume s: "set ranks = {owner}"
  have d: "distinct (unique ranks)" "set (unique ranks) = {owner}"
    by (simp_all add: unique_def s)
  then have "length (unique ranks) = 1"
    by (metis One_nat_def card.empty card_insert_if distinct_card empty_iff finite.emptyI)
  then obtain x where "unique ranks = [x]"
    by (cases "unique ranks") auto
  with d show ?thesis by simp
qed

lemma py_index_no_ValueError: "py_index xs i \<noteq> Inl ValueError"
  by (simp add: py_index_def Let_def)

lemma proc_start_no_ValueError: "proc_start inds per on pr \<noteq> Inl ValueError"
  by (auto simp: proc_start_def py_index_no_ValueError split: list.splits)

lemma component_bounds_no_ValueError: "component_bounds inds s k \<noteq> Inl ValueError"
  unfolding component_bounds_def
  by (auto split: idx.splits option.splits simp: bindE_eq_Inl py_index_no_ValueError)

text \<open>
  C3. When the tiles a key selects are owned by more than one rank, \<^verbatim>\<open>get_start_stop\<close> and
  \<^verbatim>\<open>__getitem__\<close> both raise ValueError (the error of a selection over several ranks) and
  return nothing; when all of them are owned by one rank (or the key selects no tile),
  neither raises this error.
\<close>

theorem cross_process_key_raises:
  assumes "tile_map_ranks (tile_map self) k = Inr ranks"
  shows "if \<exists>a\<in>set ranks. \<exists>b\<in>set ranks. a \<noteq> b
         then get_start_stop self k = Inl ValueError \<and> getitem self k = Inl ValueError
         else get_start_stop self k \<noteq> Inl ValueError \<and> getitem self k \<noteq> Inl ValueError"
proof (cases "\<exists>a\<in>set ranks. \<exists>b\<in>set ranks. a \<noteq> b")
  case True
  then have "1 < length (unique ranks)" using unique_length_gt1[of ranks] by blast
  then show ?thesis using True assms
    by (simp add: get_start_stop_def getitem_def Let_def)
next
  case False
  then have le: "\<not> 1 < length (unique ranks)" using unique_length_gt1[of ranks] by blast
  have g: "get_start_stop self k \<noteq> Inl ValueError"
    using le unfolding get_start_stop_def assms bindE_simps Let_def
    by (auto simp: bindE_eq_Inl py_index_no_ValueError proc_start_no_ValueError
        component_bounds_no_ValueError split: key.splits prod.splits)
  have h: "getitem self k \<noteq> Inl ValueError"
    using le unfolding getitem_def assms bindE_simps Let_def
    by (auto simp: bindE_eq_Inl py_index_no_ValueError proc_start_no_ValueError
        component_bounds_no_ValueError split: key.splits prod.splits)
  from False g h show ?thesis by simp
qed

theorem cross_process_key_raises_witness:
  "get_start_stop (example_tiles 0) (KTuple2 (SliceK (Some 1) (Some 3)) (IntK 0)) = Inl ValueError \<and>
   getitem (example_tiles 0) (KTuple2 (SliceK (Some 1) (Some 3)) (IntK 0)) = Inl ValueError \<and>
   get_start_stop (example_tiles 0) (KInt 0) \<noteq> Inl ValueError \<and>
   getitem (example_tiles 0) (KInt 0) \<noteq> Inl ValueError"
proof -
  have two: "tile_map_ranks (tile_map (example_tiles 0))
      (KTuple2 (SliceK (Some 1) (Some 3)) (IntK 0)) = Inr [0, 1]"
    by code_simp
  have "get_start_stop (example_tiles 0) (KTuple2 (SliceK (Some 1) (Some 3)) (IntK 0))
        = Inl ValueError \<and>
      getitem (example_tiles 0) (KTuple2 (SliceK (Some 1) (Some 3)) (IntK 0)) = Inl ValueError"
    using cross_process_key_raises [OF two] by (auto split: if_splits)
  moreover have "get_start_stop (example_tiles 0) (KInt 0) \<noteq> Inl ValueError \<and>
      getitem (example_tiles 0) (KInt 0) \<noteq> Inl ValueError"
    using cross_process_key_raises [OF example_ranks_row0, of 0] by (auto split: if_splits)
  ultimately show ?thesis by simp
qed

subsection \<open>Reading on a process that does not own the tile\<close>

text \<open>
  C4. For a key whose tiles are all owned by one rank, \<^verbatim>\<open>__getitem__\<close> on a process of
  another rank returns \<open>None\<close>, and raises nothing.
\<close>

theorem getitem_absent_on_other_rank:
  assumes "tile_map_ranks (tile_map self) k = Inr ranks" and "set ranks = {owner}"
    and "int (comm_rank (arr self)) \<noteq> owner"
  shows "getitem self k = Inr None"
  using assms by (simp add: getitem_def unique_singleton Let_def)


theorem getitem_absent_on_other_rank_witness:
  "getitem (example_tiles 1) (KInt 0) = Inr None"
  using getitem_absent_on_other_rank [OF example_ranks_row0, of 0 1]
  by (simp add: example_tiles_def example_array_def)

subsection \<open>Writing\<close>

lemma view_setitem_frame:
  assumes "view_setitem local_arr v val = Inr local_arr'"
    and "view_region local_arr v = ((lo0, hi0), (lo1, hi1))"
  shows "length local_arr' = length local_arr"
    and "i < length local_arr \<Longrightarrow> length (local_arr' ! i) = length (local_arr ! i)"
    and "i < length local_arr \<Longrightarrow> j < length (local_arr ! i) \<Longrightarrow>
         \<not> (lo0 \<le> i \<and> i < hi0 \<and> lo1 \<le> j \<and> j < hi1) \<Longrightarrow>
         local_arr' ! i ! j = local_arr ! i ! j"
proof -
  from assms obtain f where
    la: "local_arr' = map (\<lambda>i. map (\<lambda>j. if lo0 \<le> i \<and> i < hi0 \<and> lo1 \<le> j \<and> j < hi1
                                  then f (i - lo0) (j - lo1) else local_arr ! i ! j)
                         [0..<length (local_arr ! i)])
                   [0..<length local_arr]"
    by (auto simp: view_setitem_def bindE_eq_Inr)
  show "length local_arr' = length local_arr" by (simp add: la)
  show "i < length local_arr \<Longrightarrow> length (local_arr' ! i) = length (local_arr ! i)"
    by (simp add: la)
  show "i < length local_arr \<Longrightarrow> j < length (local_arr ! i) \<Longrightarrow>
         \<not> (lo0 \<le> i \<and> i < hi0 \<and> lo1 \<le> j \<and> j < hi1) \<Longrightarrow>
         local_arr' ! i ! j = local_arr ! i ! j"
    by (auto simp: la)
qed

text \<open>
  For a key whose tiles are all owned by one rank, \<^verbatim>\<open>__setitem__\<close> on a process of another
  rank returns the object unchanged, the local array included. On the owning rank a
  write that returns changes nothing but the local array, keeps its shape, and leaves
  every element outside the view that \<^verbatim>\<open>__getitem__\<close> computes for the key as it was.
\<close>

theorem setitem_frame:
  assumes "tile_map_ranks (tile_map self) k = Inr ranks" and "set ranks = {owner}"
  shows "(int (comm_rank (arr self)) \<noteq> owner \<longrightarrow> setitem self k val = Inr self) \<and>
         (int (comm_rank (arr self)) = owner \<longrightarrow>
            (\<forall>self'. setitem self k val = Inr self' \<longrightarrow>
               (\<exists>v lo0 hi0 lo1 hi1.
                  getitem self k = Inr (Some v) \<and>
                  view_region (larray (arr self)) v = ((lo0, hi0), (lo1, hi1)) \<and>
                  self' = self\<lparr>arr := (arr self)\<lparr>larray := larray (arr self')\<rparr>\<rparr> \<and>
                  length (larray (arr self')) = length (larray (arr self)) \<and>
                  (\<forall>i<length (larray (arr self)).
                     length (larray (arr self') ! i) = length (larray (arr self) ! i) \<and>
                     (\<forall>j<length (larray (arr self) ! i).
                        \<not> (lo0 \<le> i \<and> i < hi0 \<and> lo1 \<le> j \<and> j < hi1) \<longrightarrow>
                        larray (arr self') ! i ! j = larray (arr self) ! i ! j)))))"
proof -
  have u: "unique ranks = [owner]" by (rule unique_singleton[OF assms(2)])
  have other: "setitem self k val = Inr self" if "int (comm_rank (arr self)) \<noteq> owner"
    using that by (simp add: setitem_def assms(1) u)
  have own: "\<exists>v lo0 hi0 lo1 hi1.
                  getitem self k = Inr (Some v) \<and>
                  view_region (larray (arr self)) v = ((lo0, hi0), (lo1, hi1)) \<and>
                  self' = self\<lparr>arr := (arr self)\<lparr>larray := larray (arr self')\<rparr>\<rparr> \<and>
                  length (larray (arr self')) = length (larray (arr self)) \<and>
                  (\<forall>i<length (larray (arr self)).
                     length (larray (arr self') ! i) = length (larray (arr self) ! i) \<and>
                     (\<forall>j<length (larray (arr self) ! i).
                        \<not> (lo0 \<le> i \<and> i < hi0 \<and> lo1 \<le> j \<and> j < hi1) \<longrightarrow>
                        larray (arr self') ! i ! j = larray (arr self) ! i ! j))"
    if r: "int (comm_rank (arr self)) = owner" and s: "setitem self k val = Inr self'" for self'
  proof -
    from s r have "bindE (getitem self k) (\<lambda>view.
                  case view of
                    None \<Rightarrow> Inl AttributeError
                  | Some v \<Rightarrow>
                      bindE (view_setitem (larray (arr self)) v val) (\<lambda>local_arr.
                        Inr (self\<lparr>arr := (arr self)\<lparr>larray := local_arr\<rparr>\<rparr>))) = Inr self'"
      by (simp add: setitem_def assms(1) u)
    then obtain v la where g: "getitem self k = Inr (Some v)"
      and w: "view_setitem (larray (arr self)) v val = Inr la"
      and s': "self' = self\<lparr>arr := (arr self)\<lparr>larray := la\<rparr>\<rparr>"
      by (auto simp: bindE_eq_Inr split: option.splits)
    obtain lo0 hi0 lo1 hi1 where vr: "view_region (larray (arr self)) v = ((lo0, hi0), (lo1, hi1))"
      by (metis surj_pair)
    have la: "larray (arr self') = la" by (simp add: s')
    show ?thesis
      using g vr view_setitem_frame[OF w vr] s' unfolding la by blast
  qed
  show ?thesis using other own by blast
qed

theorem setitem_frame_witness:
  "setitem (example_tiles 1) (KInt 0) (Scalar 5) = Inr (example_tiles 1) \<and>
   (\<exists>self'. setitem (example_tiles 0) (KInt 0) (Scalar 5) = Inr self' \<and>
      larray (arr self') ! 2 ! 0 = larray (arr (example_tiles 0)) ! 2 ! 0)"
proof -
  have s: "set [0, 0, 0, 0 :: int] = {0}" by simp
  have other: "setitem (example_tiles 1) (KInt 0) (Scalar 5) = Inr (example_tiles 1)"
    using setitem_frame [OF example_ranks_row0 s, of 1 "Scalar 5"]
    by (simp add: example_tiles_def example_array_def)
  define self' where "self' = (example_tiles 0)\<lparr>arr := (example_array 0)
      \<lparr>larray := replicate 2 (replicate 8 5) @ replicate 2 (replicate 8 0)\<rparr>\<rparr>"
  have w: "setitem (example_tiles 0) (KInt 0) (Scalar 5) = Inr self'"
    unfolding self'_def by code_simp
  have g: "getitem (example_tiles 0) (KInt 0) = Inr (Some (0, 2, 0, 8))"
    by code_simp
  have r: "view_region (larray (arr (example_tiles 0))) (0, 2, 0, 8) = ((0, 2), (0, 8))"
    by code_simp
  have len: "length (larray (arr (example_tiles 0))) = 4"
    "length (larray (arr (example_tiles 0)) ! 2) = 8"
    by (simp_all add: example_tiles_def example_array_def)
  have "larray (arr self') ! 2 ! 0 = larray (arr (example_tiles 0)) ! 2 ! 0"
    using setitem_frame [OF example_ranks_row0 s, of 0 "Scalar 5"] w g r len
    by (auto simp: example_tiles_def example_array_def)
  with other w show ?thesis by blast
qed


subsection \<open>Local keys\<close>

text \<open>
  C6. \<^verbatim>\<open>local_to_global\<close> adds the number of tiles on the ranks before to the split
  coordinate, and is to clamp the stop of a slice to the tiles of the rank. On the
  example, rank 0 (tile rows 0 and 1) and the local slice 1:5, it returns the slice 1:3:
  the stop is the start plus the number of local tiles, one past the bound 2 of the rank,
  and reading the returned key raises the error of a selection over several ranks.
\<close>

theorem local_to_global_past_bound:
  "local_to_global (example_tiles 0) (KSlice (Some 1) (Some 5)) 0
     = Inr [SliceK (Some 1) (Some 3), SliceK (Some 0) None] \<and>
   sum_list (py_slice (tile_rows_per_process (example_tiles 0)) None (Some 0))
     + tile_rows_per_process (example_tiles 0) ! 0 = 2 \<and>
   getitem (example_tiles 0) (KTuple2 (SliceK (Some 1) (Some 3)) (SliceK (Some 0) None))
     = Inl ValueError"
  by code_simp

section \<open>Verification of the constructor\<close>

subsection \<open>The number of tiles on the last diagonal rank\<close>

text \<open>
  C5. The loop starts at \<open>tile_per_proc\<close> and is to stop at 1. Started at 1 with fewer
  than two remaining elements it decrements to 0 before the test for 1: the count is 0
  under true division and the division by it raises under integer division, where the
  spec's loop gives 1. For the square array on one process the constructor then raises.
\<close>

theorem last_tile_cols_below_one:
  "last_tile_cols_loop True_division 0 1 = Some (Inr 0) \<and>
   last_tile_cols_loop Integer_division 0 1 = Some (Inl RuntimeError) \<and>
   last_tile_cols_spec 0 1 = 1 \<and>
   SquareDiagTiles_init True_division (DNDarray_object example_array_single) 1 None
     = Some (Inl IndexError) \<and>
   SquareDiagTiles_init Integer_division (DNDarray_object example_array_single) 1 None
     = Some (Inl RuntimeError)"
  by code_simp

subsection \<open>The type check\<close>

lemma div_less_Inl: "div_less dm a b c = Inl e \<Longrightarrow> e = RuntimeError"
  by (auto simp: div_less_def split: if_splits tensor_division.splits)

lemma loop_Inl:
  assumes "last_tile_cols_loop dm r l = Some res"
  shows "\<forall>e. res = Inl e \<longrightarrow> e = RuntimeError"
  by (rule last_tile_cols_loop.raw_induct
        [where P="\<lambda>dm r l res. \<forall>e. res = Inl e \<longrightarrow> e = RuntimeError", OF _ assms])
     (auto split: sum.splits if_splits dest: div_less_Inl)

lemma py_index_Inl: "py_index xs i = Inl e \<Longrightarrow> e = IndexError"
  by (auto simp: py_index_def Let_def split: if_splits)

lemma py_setitem_Inl: "py_setitem xs i x = Inl e \<Longrightarrow> e = IndexError"
  by (auto simp: py_setitem_def Let_def split: if_splits)

lemma tensor_column_Inl: "tensor_column m j = Inl e \<Longrightarrow> e = IndexError"
  by (auto simp: tensor_column_def Let_def split: if_splits)

lemma chunk_Inl: "chunk a b c = Inl e \<Longrightarrow> e = ZeroDivisionError"
  by (auto simp: chunk_def split: if_splits)

lemma gshape_min_Inl: "gshape_min g = Inl e \<Longrightarrow> e = ValueError"
  by (auto simp: gshape_min_def split: list.splits)

lemma first_reaching_Inl: "first_reaching cs mn = Inl e \<Longrightarrow> e = IndexError"
  by (auto simp: first_reaching_def Let_def split: if_splits)

lemma diag_start_Inl: "diag_start lm g s = Inl e \<Longrightarrow> e \<noteq> TypeError"
  by (auto simp: diag_start_def bindE_eq_Inl Let_def
      dest!: tensor_column_Inl gshape_min_Inl first_reaching_Inl)

lemma diag_start_unsplit_Inl:
  assumes "diag_start_unsplit lm g = Inl e"
  shows "e \<noteq> TypeError"
proof (cases "gshape_min g")
  case (Inl e')
  with assms show ?thesis by (auto simp: diag_start_unsplit_def dest: gshape_min_Inl)
next
  case (Inr mn)
  show ?thesis
  proof (cases "filter (\<lambda>r. \<exists>cs\<in>set (map (\<lambda>j. cumsum (map (\<lambda>row. row ! j) lm)) [0..<map_columns lm]). mn \<le> cs ! r) [0..<length lm]")
    case Nil
    with assms Inr show ?thesis by (simp add: diag_start_unsplit_def Let_def del: set_map set_upt)
  next
    case (Cons d ds)
    with assms Inr show ?thesis
      by (simp add: diag_start_unsplit_def Let_def del: set_map set_upt split: if_splits)
  qed
qed

lemma col_size_Inl: "col_size t d l dc c = Inl e \<Longrightarrow> e \<noteq> TypeError"
  by (auto simp: col_size_def bindE_eq_Inl split: if_splits dest!: py_index_Inl chunk_Inl)

lemma mapE_Inl: "mapE f xs = Inl e \<Longrightarrow> \<exists>x\<in>set xs. f x = Inl e"
  by (induction xs) (auto simp: bindE_eq_Inl)

lemma rows_from_cols_Inl: "rows_from_cols t sz cols = Inl e \<Longrightarrow> e = IndexError"
  by (auto simp: rows_from_cols_def Let_def split: if_splits)

lemma rows_after_diag_Inl: "rows_after_diag dm lm g1 d tc st = Inl e \<Longrightarrow> e = IndexError"
  by (auto simp: rows_after_diag_def bindE_eq_Inl Let_def split: prod.splits if_splits
      dest!: py_index_Inl py_setitem_Inl tensor_column_Inl)

lemma extend_cols_Inl: "extend_cols lm d cpi prs st = Inl e \<Longrightarrow> e = IndexError"
proof (induction prs arbitrary: st)
  case Nil
  then show ?case by simp
next
  case (Cons pr prs)
  obtain cpp cols where st: "st = (cpp, cols)" by (cases st)
  show ?case
    using Cons.prems Cons.IH unfolding st
    by (auto simp: bindE_eq_Inl Let_def split: if_splits
        dest!: py_index_Inl py_setitem_Inl tensor_column_Inl)
qed

lemma fill_rows_Inl: "fill_rows lm t steps st = Inl e \<Longrightarrow> e = IndexError \<or> e = ZeroDivisionError"
proof (induction steps arbitrary: st)
  case Nil
  then show ?case by simp
next
  case (Cons step steps)
  obtain i k where step: "step = (i, k)" by (cases step)
  obtain rows nz where st: "st = (rows, nz)" by (cases st)
  show ?case
    using Cons.prems Cons.IH unfolding st step
    by (cases nz) (auto simp: bindE_eq_Inl dest!: py_index_Inl chunk_Inl)
qed

lemma fill_rows_all_Inl: "fill_rows_all lm t d sz rows = Inl e \<Longrightarrow> e = IndexError \<or> e = ZeroDivisionError"
  by (auto simp: fill_rows_all_def bindE_eq_Inl Let_def split: prod.splits dest!: fill_rows_Inl)

lemma extra_rows_Inl: "extra_rows g0 g1 rows = Inl e \<Longrightarrow> e = IndexError \<or> e = ZeroDivisionError"
  by (auto simp: extra_rows_def bindE_eq_Inl split: if_splits dest!: py_setitem_Inl chunk_Inl)

lemma bindE_nt:
  "m \<noteq> Inl TypeError \<Longrightarrow> (\<And>x. f x \<noteq> Inl TypeError) \<Longrightarrow> bindE m f \<noteq> Inl TypeError"
  by (cases m) simp_all

lemma if_nt:
  "(c \<Longrightarrow> x \<noteq> Inl TypeError) \<Longrightarrow> (\<not> c \<Longrightarrow> y \<noteq> Inl TypeError)
     \<Longrightarrow> (if c then x else y) \<noteq> Inl TypeError"
  by simp

lemma case_prod_nt:
  "(\<And>a b. f a b \<noteq> Inl TypeError) \<Longrightarrow> (case p of (a, b) \<Rightarrow> f a b) \<noteq> Inl TypeError"
  by (cases p) simp

lemma Inr_nt: "Inr x \<noteq> Inl TypeError"
  by simp

lemma IndexError_nt: "Inl IndexError \<noteq> Inl TypeError"
  by simp

lemma mapE_nt: "(\<And>x. f x \<noteq> Inl TypeError) \<Longrightarrow> mapE f xs \<noteq> Inl TypeError"
  by (induction xs) (auto simp: bindE_eq_Inl)

lemma helpers_nt:
  "col_size t d l dc c \<noteq> Inl TypeError"
  "rows_from_cols t sz cols \<noteq> Inl TypeError"
  "py_index xs i \<noteq> Inl TypeError"
  "py_setitem xs i x \<noteq> Inl TypeError"
  "rows_after_diag dm lm g1 d tc st \<noteq> Inl TypeError"
  "extend_cols lm d cpi prs st' \<noteq> Inl TypeError"
  "fill_rows_all lm t d sz rows \<noteq> Inl TypeError"
  "extra_rows g0 g1 rows \<noteq> Inl TypeError"
  by (auto dest: col_size_Inl rows_from_cols_Inl py_index_Inl py_setitem_Inl rows_after_diag_Inl
    extend_cols_Inl fill_rows_all_Inl extra_rows_Inl)

lemma init_tiles_nt: "init_tiles dm a t lm mn cs d l \<noteq> Inl TypeError"
  unfolding init_tiles_def Let_def
  by (intro bindE_nt if_nt case_prod_nt Inr_nt IndexError_nt mapE_nt helpers_nt)

text \<open>
  C9, as stated: construction fails with TypeError whenever the input is not a
  two-dimensional distributed matrix. An array of three dimensions passes the check of
  line 60 and the constructor returns a tiling for it; an array of one dimension passes
  it and fails later with IndexError.
\<close>

theorem init_dimension_counterexample:
  "map_option (map_sum id row_indices)
     (SquareDiagTiles_init True_division (DNDarray_object example_array_3d) 2 None)
     = Some (Inr [0, 1, 2, 4]) \<and>
   map_option (map_sum id row_indices)
     (SquareDiagTiles_init True_division (DNDarray_object example_array_1d) 2 None)
     = Some (Inl IndexError)"
  by code_simp

text \<open>
  C9, amended. Construction fails with TypeError exactly when the input is not a
  DNDarray: a DNDarray of any number of dimensions passes the check, and nothing after
  the check raises TypeError.
\<close>

theorem init_TypeError_iff:
  "SquareDiagTiles_init dm obj tile_per_proc lshape_map_arg = Some (Inl TypeError)
     \<longleftrightarrow> obj = Other_object"
proof (cases obj)
  case Other_object
  then show ?thesis by (simp add: SquareDiagTiles_init_def)
next
  case (DNDarray_object a)
  define lm where "lm = (case lshape_map_arg of None \<Rightarrow> comm_lshapes a | Some m \<Rightarrow> m)"
  have "SquareDiagTiles_init dm obj tile_per_proc lshape_map_arg \<noteq> Some (Inl TypeError)"
  proof (cases "split a")
    case None
    then have eq: "SquareDiagTiles_init dm obj tile_per_proc lshape_map_arg =
        (case diag_start_unsplit lm (gshape a) of
           Inl e \<Rightarrow> Some (Inl e)
         | Inr (cs, d, r) \<Rightarrow>
             (case last_tile_cols_loop dm r tile_per_proc of
                None \<Rightarrow> None | Some res \<Rightarrow> Some (Inl RuntimeError)))"
      unfolding SquareDiagTiles_init_def DNDarray_object lm_def Let_def by simp
    show ?thesis
      unfolding eq using diag_start_unsplit_Inl[of lm "gshape a"]
      by (auto split: sum.splits option.splits)
  next
    case (Some s)
    then have eq: "SquareDiagTiles_init dm obj tile_per_proc lshape_map_arg =
        (case diag_start lm (gshape a) s of
           Inl e \<Rightarrow> Some (Inl e)
         | Inr (mn, cs, d, r) \<Rightarrow>
             (case last_tile_cols_loop dm r tile_per_proc of
                None \<Rightarrow> None
              | Some (Inl e) \<Rightarrow> Some (Inl e)
              | Some (Inr l) \<Rightarrow> Some (init_tiles dm a tile_per_proc lm mn cs d l)))"
      unfolding SquareDiagTiles_init_def DNDarray_object lm_def Let_def by simp
    show ?thesis
      unfolding eq using diag_start_Inl[of lm "gshape a" s]
      by (auto simp: init_tiles_nt split: sum.splits option.splits dest: loop_Inl[rule_format])
  qed
  then show ?thesis by (simp add: DNDarray_object)
qed

section \<open>Verification of the tile grid\<close>

text \<open>
  The boundary arrays of a matrix whose local extents along the split axis are all equal.
  The tile sizes of each stage of the constructor are followed: they stay non-negative
  and their sum stays within the global extent.
\<close>

subsection \<open>General facts\<close>

lemma mapE_Inr:
  "mapE f xs = Inr ys \<Longrightarrow> length ys = length xs \<and> (\<forall>i<length xs. f (xs ! i) = Inr (ys ! i))"
proof (induction xs arbitrary: ys)
  case Nil
  then show ?case by simp
next
  case (Cons x xs)
  from Cons.prems obtain y ys' where y: "f x = Inr y" and ys': "mapE f xs = Inr ys'"
    and ys: "ys = y # ys'"
    by (auto simp: bindE_eq_Inr)
  from Cons.IH[OF ys'] show ?case
    by (auto simp: ys y nth_Cons split: nat.splits)
qed

lemma chunk_sum:
  assumes "0 < w"
  shows "(\<Sum>r<w. e div int w + (if int r < e mod int w then 1 else 0)) = e"
proof -
  have m: "0 \<le> e mod int w" "e mod int w < int w" using assms by simp_all
  have "(\<Sum>r<w. (if int r < e mod int w then 1 else 0 :: int)) = int (card {r. r < w \<and> int r < e mod int w})"
    by (simp add: sum.If_cases Int_def)
  also have "{r. r < w \<and> int r < e mod int w} = {..<nat (e mod int w)}"
    using m by auto
  finally have c: "(\<Sum>r<w. (if int r < e mod int w then 1 else 0 :: int)) = e mod int w"
    using m by simp
  have "(\<Sum>r<w. e div int w + (if int r < e mod int w then 1 else 0)) =
      int w * (e div int w) + e mod int w"
    by (simp add: sum.distrib c)
  then show ?thesis by simp
qed

lemma sum_list_map_upt: "sum_list (map f [0..<n]) = (\<Sum>i<n. f i)"
  by (simp add: sum_list_sum_nth atLeast0LessThan) 

lemma length_cumsum [simp]: "length (cumsum xs) = length xs"
  by (simp add: cumsum_def)

lemma nth_cumsum: "i < length xs \<Longrightarrow> cumsum xs ! i = sum_list (take (Suc i) xs)"
  by (simp add: cumsum_def)

lemma cumsum_replicate: "i < n \<Longrightarrow> cumsum (replicate n L) ! i = int (Suc i) * L"
  by (simp add: nth_cumsum sum_list_replicate min_def algebra_simps)


lemma loop_bounds:
  assumes "last_tile_cols_loop dm r l = Some res"
  shows "0 \<le> r \<and> 0 \<le> l \<longrightarrow> (\<forall>x. res = Inr x \<longrightarrow> 0 \<le> x \<and> x \<le> l)"
proof (rule last_tile_cols_loop.raw_induct
        [where P="\<lambda>dm r l res. 0 \<le> r \<and> 0 \<le> l \<longrightarrow> (\<forall>x. res = Inr x \<longrightarrow> 0 \<le> x \<and> x \<le> l)",
         OF _ assms])
  fix loop :: "tensor_division \<Rightarrow> int \<Rightarrow> int \<Rightarrow> (py_error + int) option"
    and dm r l res
  assume IH: "\<And>dm r l res. loop dm r l = Some res \<Longrightarrow>
          0 \<le> r \<and> 0 \<le> l \<longrightarrow> (\<forall>x. res = Inr x \<longrightarrow> 0 \<le> x \<and> x \<le> l)"
    and step: "(case div_less dm r l 2 of
        Inl e \<Rightarrow> Some (Inl e)
      | Inr continue \<Rightarrow>
          if \<not> continue then Some (Inr l)
          else if l - 1 = 1 then Some (Inr (l - 1))
          else loop dm r (l - 1)) = Some res"
  show "0 \<le> r \<and> 0 \<le> l \<longrightarrow> (\<forall>x. res = Inr x \<longrightarrow> 0 \<le> x \<and> x \<le> l)"
  proof (intro impI allI)
    fix x assume rl: "0 \<le> r \<and> 0 \<le> l" and res: "res = Inr x"
    show "0 \<le> x \<and> x \<le> l"
    proof (cases "div_less dm r l 2")
      case (Inl e)
      with step res show ?thesis by simp
    next
      case (Inr c)
      show ?thesis
      proof (cases c)
        case False
        with step Inr res rl show ?thesis by simp
      next
        case True
        have "l \<noteq> 0" using Inr True rl
          by (auto simp: div_less_def split: tensor_division.splits)
        with rl have l1: "1 \<le> l" by simp
        show ?thesis
        proof (cases "l - 1 = 1")
          case True
          with step Inr \<open>c\<close> res show ?thesis by simp
        next
          case False
          with step Inr \<open>c\<close> have "loop dm r (l - 1) = Some res" by simp
          from IH[OF this] rl l1 res show ?thesis by simp
        qed
      qed
    qed
  qed
qed

lemma first_reaching_Inr:
  assumes "first_reaching cs mn = Inr d"
  shows "d < length cs" and "mn \<le> cs ! d" and "\<forall>i<d. cs ! i < mn"
proof -
  from assms have d: "d = length (takeWhile (\<lambda>c. c < mn) cs)" and lt: "d < length cs"
    by (auto simp: first_reaching_def Let_def split: if_splits)
  show "d < length cs" by (rule lt)
  have "\<not> cs ! d < mn" using lt unfolding d by (rule nth_length_takeWhile)
  then show "mn \<le> cs ! d" by simp
  show "\<forall>i<d. cs ! i < mn"
  proof (intro allI impI)
    fix i assume "i < d"
    then have i: "i < length (takeWhile (\<lambda>c. c < mn) cs)" by (simp add: d)
    then have "takeWhile (\<lambda>c. c < mn) cs ! i = cs ! i" by (rule takeWhile_nth)
    moreover have "takeWhile (\<lambda>c. c < mn) cs ! i \<in> set (takeWhile (\<lambda>c. c < mn) cs)"
      using i by simp
    ultimately show "cs ! i < mn" by (metis set_takeWhileD)
  qed
qed

subsection \<open>The sizes of the tile columns on the diagonal\<close>

lemma block_sum:
  assumes "0 < tp"
  shows "sum_list (map (\<lambda>r. e div int tp + (if int r < e mod int tp then 1 else 0)) [0..<tp]) = e"
  using chunk_sum[OF assms, of e] by (simp add: sum_list_map_upt)

lemma cols0_facts:
  assumes m: "mapE (col_size (int tp) d (int lt) dc) (map int [0..<tp * d + lt]) = Inr cols0"
    and tp: "0 < tp" and lt: "lt \<le> tp"
    and dc: "length dc = d + 2" "\<forall>q\<le>d. dc ! q = int q * L" "dc ! (d + 1) = K"
  shows "length cols0 = tp * d + lt"
    and "\<forall>c<tp * d + lt. cols0 ! c =
           (if c div tp < d then L div int tp + (if int (c mod tp) < L mod int tp then 1 else 0)
            else (K - int d * L) div int lt
                  + (if int (c mod tp) < (K - int d * L) mod int lt then 1 else 0))"
proof -
  from mapE_Inr[OF m] have len: "length cols0 = tp * d + lt"
    and val: "\<forall>i<tp * d + lt. col_size (int tp) d (int lt) dc (int i) = Inr (cols0 ! i)"
    by simp_all
  show "length cols0 = tp * d + lt" by (rule len)
  show "\<forall>c<tp * d + lt. cols0 ! c =
           (if c div tp < d then L div int tp + (if int (c mod tp) < L mod int tp then 1 else 0)
            else (K - int d * L) div int lt
                  + (if int (c mod tp) < (K - int d * L) mod int lt then 1 else 0))"
  proof (intro allI impI)
    fix c assume c: "c < tp * d + lt"
    define q where "q = c div tp"
    have qd: "q \<le> d"
    proof -
      have "c < tp * (d + 1)" using c lt by (simp add: algebra_simps)
      then have "c div tp < d + 1" using tp by (simp add: less_mult_imp_div_less mult.commute)
      then show ?thesis by (simp add: q_def)
    qed
    have divq: "int c div int tp = int q" by (simp add: q_def zdiv_int)
    have modq: "int c mod int tp = int (c mod tp)" by (simp add: zmod_int)
    have i1: "py_index dc (int q + 1) = Inr (dc ! (q + 1))"
      using qd dc(1) by (simp add: py_index_def Let_def nat_add_distrib)
    have i0: "py_index dc (int q) = Inr (dc ! q)"
      using qd dc(1) by (simp add: py_index_def Let_def)
    have cs: "col_size (int tp) d (int lt) dc (int c) =
        chunk (dc ! (q + 1) - dc ! q) (int (c mod tp)) (if q \<noteq> d then int tp else int lt)"
      using tp by (simp add: col_size_def divq modq i1 i0)
    show "cols0 ! c =
           (if c div tp < d then L div int tp + (if int (c mod tp) < L mod int tp then 1 else 0)
            else (K - int d * L) div int lt
                  + (if int (c mod tp) < (K - int d * L) mod int lt then 1 else 0))"
    proof (cases "q < d")
      case True
      then have "dc ! (q + 1) - dc ! q = L" using dc(2) by (simp add: algebra_simps)
      with cs True tp val c show ?thesis by (simp add: chunk_def q_def)
    next
      case False
      with qd have qe: "q = d" by simp
      have "c div tp * tp \<le> c" by simp
      then have "tp * d \<le> c" using qe unfolding q_def by (simp add: mult.commute)
      with c have lt0: "0 < lt" by simp
      have "dc ! (q + 1) - dc ! q = K - int d * L" using dc(2,3) qe by simp
      with cs qe lt0 val c show ?thesis by (simp add: chunk_def q_def)
    qed
  qed
qed


lemma cols0_sums:
  assumes m: "mapE (col_size (int tp) d (int lt) dc) (map int [0..<tp * d + lt]) = Inr cols0"
    and tp: "0 < tp" and lt: "lt \<le> tp"
    and dc: "length dc = d + 2" "\<forall>q\<le>d. dc ! q = int q * L" "dc ! (d + 1) = K"
    and L: "0 \<le> L" and K: "int d * L \<le> K"
  shows "\<forall>x\<in>set cols0. 0 \<le> x"
    and "\<forall>j\<le>d. sum_list (take (tp * j) cols0) = int j * L"
    and "sum_list cols0 = (if lt = 0 then int d * L else K)"
proof -
  define g where "g c = (if c div tp < d
      then L div int tp + (if int (c mod tp) < L mod int tp then 1 else 0)
      else (K - int d * L) div int lt + (if int (c mod tp) < (K - int d * L) mod int lt then 1 else 0))"
    for c :: nat
  note f = cols0_facts[OF m tp lt dc]
  have cols0: "cols0 = map g [0..<tp * d + lt]"
    by (rule nth_equalityI) (use f in \<open>auto simp: g_def\<close>)
  have g0: "0 \<le> g c" for c
  proof -
    have "0 \<le> L div int tp" using L tp by (simp add: pos_imp_zdiv_nonneg_iff)
    moreover have "0 \<le> (K - int d * L) div int lt"
      using K by (cases "lt = 0") (simp_all add: pos_imp_zdiv_nonneg_iff)
    ultimately show ?thesis by (simp add: g_def)
  qed
  show "\<forall>x\<in>set cols0. 0 \<le> x" using g0 by (auto simp: cols0)
  have blk: "sum_list (map g [tp * j..<tp * j + tp]) = L" if "j < d" for j
  proof -
    have e: "[tp * j..<tp * j + tp] = map (\<lambda>r. r + tp * j) [0..<tp]"
      using map_add_upt[of "tp * j" tp] by (simp only: add.commute)
    have "map g [tp * j..<tp * j + tp] = map g (map (\<lambda>r. r + tp * j) [0..<tp])"
      by (simp only: e)
    also have "\<dots> = map (\<lambda>r. g (r + tp * j)) [0..<tp]"
      by (simp add: comp_def)
    finally have "map g [tp * j..<tp * j + tp] = map (\<lambda>r. g (r + tp * j)) [0..<tp]" .
    also have "\<dots> = map (\<lambda>r. L div int tp + (if int r < L mod int tp then 1 else 0)) [0..<tp]"
      using that tp by (auto simp: g_def)
    finally show ?thesis using block_sum[OF tp, of L] by simp
  qed
  have pre: "sum_list (map g [0..<tp * j]) = int j * L" if "j \<le> d" for j
    using that
  proof (induction j)
    case 0
    then show ?case by simp
  next
    case (Suc j)
    have "[0..<tp * Suc j] = [0..<tp * j] @ [tp * j..<tp * j + tp]"
      by (metis le_add1 mult_Suc_right upt_add_eq_append zero_le add.commute)
    then show ?case using Suc blk[of j] by (simp add: algebra_simps)
  qed
  show "\<forall>j\<le>d. sum_list (take (tp * j) cols0) = int j * L"
  proof (intro allI impI)
    fix j assume j: "j \<le> d"
    then have "tp * j \<le> tp * d + lt" by (simp add: trans_le_add1)
    then have "take (tp * j) cols0 = map g [0..<tp * j]"
      by (simp add: cols0 take_map min_def)
    with pre[OF j] show "sum_list (take (tp * j) cols0) = int j * L" by simp
  qed
  have last: "sum_list (map g [tp * d..<tp * d + lt]) = K - int d * L" if "0 < lt"
  proof -
    have e: "[tp * d..<tp * d + lt] = map (\<lambda>r. r + tp * d) [0..<lt]"
      using map_add_upt[of "tp * d" lt] by (simp only: add.commute)
    have "map g [tp * d..<tp * d + lt] = map g (map (\<lambda>r. r + tp * d) [0..<lt])"
      by (simp only: e)
    also have "\<dots> = map (\<lambda>r. g (r + tp * d)) [0..<lt]"
      by (simp add: comp_def)
    finally have "map g [tp * d..<tp * d + lt] = map (\<lambda>r. g (r + tp * d)) [0..<lt]" .
    also have "\<dots> = map (\<lambda>r. (K - int d * L) div int lt
          + (if int r < (K - int d * L) mod int lt then 1 else 0)) [0..<lt]"
      using lt tp by (auto simp: g_def)
    finally show ?thesis using block_sum[OF that, of "K - int d * L"] by simp
  qed
  have "[0..<tp * d + lt] = [0..<tp * d] @ [tp * d..<tp * d + lt]"
    by (metis le_add1 upt_add_eq_append zero_le)
  then have "sum_list cols0 = int d * L + sum_list (map g [tp * d..<tp * d + lt])"
    using pre[of d] by (simp add: cols0)
  then show "sum_list cols0 = (if lt = 0 then int d * L else K)"
    using last by (cases "lt = 0") simp_all
qed

subsection \<open>List updates of Python\<close>

lemma py_index_nat: "i < length xs \<Longrightarrow> py_index xs (int i) = Inr (xs ! i)"
  by (simp add: py_index_def Let_def)

lemma py_index_out: "length xs \<le> i \<Longrightarrow> py_index xs (int i) = Inl IndexError"
  by (simp add: py_index_def Let_def)

lemma py_setitem_last:
  assumes "py_setitem xs (- 1) v = Inr ys"
  shows "xs \<noteq> []" and "ys = butlast xs @ [v]"
proof -
  from assms have n: "0 < length xs" and ys: "ys = xs[nat (int (length xs) - 1) := v]"
    by (auto simp: py_setitem_def Let_def split: if_splits)
  show "xs \<noteq> []" using n by simp
  then obtain zs z where xs: "xs = zs @ [z]" by (metis rev_exhaust)
  show "ys = butlast xs @ [v]" by (simp add: ys xs nat_diff_distrib')
qed

lemma py_index_setitem:
  assumes "py_index xs j = Inr x" and "py_setitem xs j y = Inr ys"
  shows "\<exists>k<length xs. x = xs ! k \<and> ys = xs[k := y]"
proof -
  define k where "k = nat (if j < 0 then j + int (length xs) else j)"
  from assms have "k < length xs" "x = xs ! k" "ys = xs[k := y]"
    by (auto simp: py_index_def py_setitem_def Let_def k_def split: if_splits)
  then show ?thesis by blast
qed

lemma sum_list_update_int:
  fixes xs :: "int list"
  shows "k < length xs \<Longrightarrow> sum_list (xs[k := y]) = sum_list xs - xs ! k + y"
proof (induction xs arbitrary: k)
  case Nil
  then show ?case by simp
next
  case (Cons x xs)
  then show ?case by (cases k) auto
qed

lemma py_insert_set: "set (py_insert xs i x) = insert x (set xs)"
proof -
  have "set (take k xs) \<union> set (drop k xs) = set xs" for k
    by (metis append_take_drop_id set_append)
  then show ?thesis by (simp add: py_insert_def Let_def)
qed

lemma py_insert_sum:
  fixes xs :: "int list"
  shows "sum_list (py_insert xs i x) = sum_list xs + x"
proof -
  have "sum_list (take k xs @ [x] @ drop k xs) = sum_list (take k xs @ drop k xs) + x" for k
    by (simp only: sum_list_append) simp
  then show ?thesis by (simp add: py_insert_def Let_def)
qed

lemma py_insert_length: "length (py_insert xs i x) = Suc (length xs)"
  by (simp add: py_insert_def Let_def)

lemma py_insert_end:
  "i = int (length xs) \<Longrightarrow> py_insert xs i x = xs @ [x]"
  by (simp add: py_insert_def Let_def py_bound_def)

subsection \<open>Rows\<close>

lemma rows_from_cols_Inr:
  assumes "rows_from_cols t sz cols = Inr rows"
  shows "set rows \<subseteq> insert 0 (set cols)" and "sum_list rows = sum_list cols"
  using assms by (auto simp: rows_from_cols_def Let_def sum_list_replicate split: if_splits)

lemma rows_after_diag_Inr:
  assumes r: "rows_after_diag dm lm g1 d tile_cols (rows, rpp) = Inr (rows', rpp')"
    and col: "tensor_column lm 0 = Inr col0" and d: "d < length col0"
    and diff: "g1 \<le> cumsum col0 ! d"
    and pos: "\<forall>x\<in>set rows. 0 \<le> x"
  shows "\<forall>x\<in>set rows'. 0 \<le> x" and "sum_list rows' = sum_list rows + (cumsum col0 ! d - g1)"
proof -
  let ?diff = "cumsum col0 ! d - g1"
  have c: "py_index (cumsum col0) (int d) = Inr (cumsum col0 ! d)"
    using d by (simp add: py_index_def Let_def)
  from r obtain shape l0 where
    alt: "(if greater_half dm ?diff l0
          then bindE (py_index rpp (int d)) (\<lambda>n.
               bindE (py_setitem rpp (int d) (n + 1)) (\<lambda>rpp'.
                 Inr (py_insert rows tile_cols ?diff, rpp')))
          else bindE (py_index rows (tile_cols - 1)) (\<lambda>x.
               bindE (py_setitem rows (tile_cols - 1) (x + ?diff)) (\<lambda>rows'.
                 Inr (rows', rpp)))) = Inr (rows', rpp')"
    by (auto simp: rows_after_diag_def col c bindE_eq_Inr Let_def)
  have d0: "0 \<le> ?diff" using diff by simp
  have "(\<forall>x\<in>set rows'. 0 \<le> x) \<and> sum_list rows' = sum_list rows + ?diff"
  proof (cases "greater_half dm ?diff l0")
    case True
    with alt have "rows' = py_insert rows tile_cols ?diff"
      by (auto simp: bindE_eq_Inr)
    then show ?thesis using pos d0 by (simp add: py_insert_set py_insert_sum)
  next
    case False
    with alt obtain x where x: "py_index rows (tile_cols - 1) = Inr x"
      and s: "py_setitem rows (tile_cols - 1) (x + ?diff) = Inr rows'"
      by (auto simp: bindE_eq_Inr)
    from py_index_setitem[OF x s] obtain k where k: "k < length rows" "x = rows ! k"
      "rows' = rows[k := x + ?diff]" by blast
    have "0 \<le> x" using k pos by simp
    then have "\<forall>y\<in>set rows'. 0 \<le> y"
      using pos d0 k(3) by (auto dest!: set_update_subset_insert[THEN subsetD])
    moreover have "sum_list rows' = sum_list rows + ?diff"
      using k by (simp add: sum_list_update_int)
    ultimately show ?thesis by simp
  qed
  then show "\<forall>x\<in>set rows'. 0 \<le> x"
    and "sum_list rows' = sum_list rows + (cumsum col0 ! d - g1)"
    by simp_all
qed

lemma fill_rows_Inr:
  assumes "fill_rows lm t steps (rows, nz) = Inr (rows', nz')"
    and "distinct nz" and "\<forall>z\<in>set nz. z < length rows \<and> rows ! z = 0"
    and "\<forall>x\<in>set rows. 0 \<le> x"
    and "\<forall>(i, k)\<in>set steps.
           bindE (py_index lm (int i)) (\<lambda>shape. bindE (py_index shape 0) (\<lambda>l0.
             chunk l0 (int k) t)) = Inr (v i k) \<and> 0 \<le> v i k"
  shows "(\<forall>x\<in>set rows'. 0 \<le> x) \<and>
         sum_list rows' = sum_list rows + sum_list (map (\<lambda>(i, k). v i k) steps)"
  using assms
proof (induction steps arbitrary: rows nz)
  case Nil
  then show ?case by simp
next
  case (Cons step steps)
  obtain i k where step: "step = (i, k)" by (cases step)
  have val: "bindE (py_index lm (int i)) (\<lambda>shape. bindE (py_index shape 0) (\<lambda>l0.
             chunk l0 (int k) t)) = Inr (v i k)" and v0: "0 \<le> v i k"
    using Cons.prems(5) by (auto simp: step)
  then obtain shape l0 where sh: "py_index lm (int i) = Inr shape"
    "py_index shape 0 = Inr l0" "chunk l0 (int k) t = Inr (v i k)"
    by (auto simp: bindE_eq_Inr)
  from Cons.prems(1) obtain z nz1 where nz: "nz = z # nz1"
    and rec: "fill_rows lm t steps (rows[z := v i k], nz1) = Inr (rows', nz')"
    by (cases nz) (auto simp: step sh)
  have z: "z < length rows" "rows ! z = 0" "z \<notin> set nz1" "distinct nz1"
    using Cons.prems(2,3) by (auto simp: nz)
  have "(\<forall>x\<in>set rows'. 0 \<le> x) \<and>
         sum_list rows' = sum_list (rows[z := v i k]) + sum_list (map (\<lambda>(i, k). v i k) steps)"
  proof (rule Cons.IH[OF rec])
    show "distinct nz1" by (rule z)
    show "\<forall>y\<in>set nz1. y < length (rows[z := v i k]) \<and> rows[z := v i k] ! y = 0"
      using Cons.prems(3) z by (auto simp: nz nth_list_update)
    show "\<forall>x\<in>set (rows[z := v i k]). 0 \<le> x"
      using Cons.prems(4) v0 by (auto dest!: set_update_subset_insert[THEN subsetD])
    show "\<forall>(i, k)\<in>set steps.
           bindE (py_index lm (int i)) (\<lambda>shape. bindE (py_index shape 0) (\<lambda>l0.
             chunk l0 (int k) t)) = Inr (v i k) \<and> 0 \<le> v i k"
      using Cons.prems(5) by simp
  qed
  then show ?case using z by (simp add: step sum_list_update_int)
qed

lemma extra_rows_Inr:
  assumes "extra_rows g0 g1 rows = Inr rows'"
    and "\<forall>x\<in>set rows. 0 \<le> x" and "sum_list rows \<le> g1" and "g1 \<le> g0"
  shows "(\<forall>x\<in>set rows'. 0 \<le> x) \<and> sum_list rows' \<le> g0"
proof (cases "g0 - g1 > 10")
  case True
  with assms(1) have "rows' = rows @ [g0 - g1]"
    by (auto simp: extra_rows_def chunk_def bindE_eq_Inr)
  then show ?thesis using assms(2,3) True by auto
next
  case False
  with assms(1) have s: "py_setitem rows (- 1) (g0 - sum_list (butlast rows)) = Inr rows'"
    by (simp add: extra_rows_def)
  from py_setitem_last[OF s] have ne: "rows \<noteq> []"
    and r': "rows' = butlast rows @ [g0 - sum_list (butlast rows)]" by simp_all
  have b: "\<forall>x\<in>set (butlast rows). 0 \<le> x" using assms(2) by (auto dest: in_set_butlastD)
  have "sum_list rows = sum_list (butlast rows) + last rows"
    using ne by (metis append_butlast_last_id sum_list.Cons sum_list.Nil sum_list_append add.right_neutral)
  moreover have "0 \<le> last rows" using ne assms(2) by simp
  ultimately have "sum_list (butlast rows) \<le> g0" using assms(3,4) by simp
  then show ?thesis using b by (auto simp: r')
qed

subsection \<open>Columns of a wide matrix split along the columns\<close>

lemma extend_cols_append:
  "extend_cols lm d cpi (xs @ ys) st = bindE (extend_cols lm d cpi xs st) (extend_cols lm d cpi ys)"
proof (induction xs arbitrary: st)
  case Nil
  then show ?case by simp
next
  case (Cons x xs)
  obtain cpp cols where st: "st = (cpp, cols)" by (cases st)
  show ?case
    unfolding st append_Cons extend_cols.simps prod.case Let_def
    by (auto simp: bindE_def Cons.IH split: sum.splits)
qed

text \<open>One iteration, once the four reads succeed.\<close>

lemma extend_cols_step:
  assumes "tensor_column lm 1 = Inr col1" and "pr < length col1" and "pr < length cpi"
    and "0 \<le> cpi ! pr - 1" and "nat (cpi ! pr - 1) < length cols"
  shows "extend_cols lm d cpi (pr # prs) (cpp, cols) =
     (let ci = cpi ! pr; diff = cumsum col1 ! pr - sum_list (take (nat ci) cols)
      in bindE (if diff > 0 \<and> pr \<le> d
                then bindE (py_index cpp (int pr)) (\<lambda>n.
                     bindE (py_setitem cpp (int pr) (n + 1)) (\<lambda>cpp'.
                       Inr (cpp', py_insert cols ci diff)))
                else Inr (cpp, cols)) (\<lambda>(cpp1, cols1).
         extend_cols lm d cpi prs
           (cpp1, if pr > d \<and> diff > 0 then py_insert cols1 ci diff else cols1)))"
proof -
  have a: "py_index (cumsum col1) (int pr) = Inr (cumsum col1 ! pr)"
    using assms(2) by (simp add: py_index_def Let_def)
  have c: "py_index cpi (int pr) = Inr (cpi ! pr)"
    using assms(3) by (simp add: py_index_def Let_def)
  have "Suc (nat (cpi ! pr - 1)) = nat (cpi ! pr)" using assms(4) by simp
  then have b: "py_index (cumsum cols) (cpi ! pr - 1) = Inr (sum_list (take (nat (cpi ! pr)) cols))"
    using assms(4,5) by (simp add: py_index_def Let_def nth_cumsum)
  show ?thesis by (simp add: assms(1) a b c Let_def)
qed

lemma extend_cols_before_diag:
  assumes col: "tensor_column lm 1 = Inr (replicate P L)" and dP: "d < P"
    and cpi: "d < length cpi" "\<forall>pr<d. cpi ! pr = int (tp * (pr + 1))"
    and tp: "0 < tp"
    and len: "tp * d \<le> length cols"
    and pre: "\<forall>j\<le>d. sum_list (take (tp * j) cols) = int j * L"
    and prs: "\<forall>pr\<in>set prs. pr < d"
  shows "extend_cols lm d cpi (prs @ rest) (cpp, cols) = extend_cols lm d cpi rest (cpp, cols)"
  using prs
proof (induction prs)
  case Nil
  then show ?case by simp
next
  case (Cons pr prs)
  then have pr: "pr < d" by simp
  have ci: "cpi ! pr = int (tp * (pr + 1))" using cpi(2) pr by simp
  have "pr + 1 \<le> d" using pr by simp
  then have le: "tp * (pr + 1) \<le> tp * d" by (rule mult_le_mono2)
  have p1: "0 < tp * (pr + 1)" using tp by simp
  then have in_range: "nat (cpi ! pr - 1) < length cols"
    using len le unfolding ci by linarith
  have nn: "0 \<le> cpi ! pr - 1" using p1 unfolding ci by linarith
  have "nat (cpi ! pr) = tp * (pr + 1)" unfolding ci by (rule nat_int)
  moreover have "sum_list (take (tp * (pr + 1)) cols) = int (pr + 1) * L"
    using pre \<open>pr + 1 \<le> d\<close> by blast
  ultimately have s: "sum_list (take (nat (cpi ! pr)) cols) = int (pr + 1) * L"
    by simp
  have a: "cumsum (replicate P L) ! pr = int (pr + 1) * L"
    using pr dP by (simp add: cumsum_replicate)
  have "extend_cols lm d cpi (pr # (prs @ rest)) (cpp, cols) =
      extend_cols lm d cpi (prs @ rest) (cpp, cols)"
    using pr dP cpi(1)
    by (subst extend_cols_step[OF col _ _ nn in_range]) (simp_all add: s a Let_def)
  then show ?case using Cons by simp
qed

lemma extend_cols_after_diag:
  assumes col: "tensor_column lm 1 = Inr (replicate P L)" and L: "0 < L"
    and cpi: "P \<le> length cpi" "\<forall>pr. d < pr \<and> pr < P \<longrightarrow> cpi ! pr = int (T + (pr - d))"
    and j: "d < j" "j \<le> P"
    and inv: "length cols = T + (j - d)" "sum_list cols = int j * L" "\<forall>x\<in>set cols. 0 \<le> x"
    and r: "extend_cols lm d cpi [j..<P] (cpp, cols) = Inr (cpp2, cols2)"
  shows "(\<forall>x\<in>set cols2. 0 \<le> x) \<and> sum_list cols2 = int P * L"
  using j inv r
proof (induction "P - j" arbitrary: j cols)
  case 0
  then have "j = P" by simp
  with "0.prems" show ?case by simp
next
  case (Suc k)
  then have jP: "j < P" by simp
  then have upt: "[j..<P] = j # [Suc j..<P]" by (simp add: upt_conv_Cons)
  have ci: "cpi ! j = int (T + (j - d))" using cpi(2) Suc.prems(1) jP by simp
  have ci_len: "cpi ! j = int (length cols)" by (simp add: ci Suc.prems(3))
  have pos: "0 < length cols" using Suc.prems(1,3) by simp
  have nn: "0 \<le> cpi ! j - 1" using pos by (simp add: ci_len)
  have in_range: "nat (cpi ! j - 1) < length cols" using pos unfolding ci_len by linarith
  have a: "cumsum (replicate P L) ! j = int (j + 1) * L"
    using jP by (simp add: cumsum_replicate)
  have b: "sum_list (take (nat (cpi ! j)) cols) = int j * L"
    by (simp add: ci_len Suc.prems(4))
  have diff: "cumsum (replicate P L) ! j - sum_list (take (nat (cpi ! j)) cols) = L"
    by (simp add: a b algebra_simps)
  have lt: "sum_list (take (nat (cpi ! j)) cols) < cumsum (replicate P L) ! j"
    using diff L by linarith
  have step: "extend_cols lm d cpi [j..<P] (cpp, cols) =
      extend_cols lm d cpi [Suc j..<P] (cpp, cols @ [L])"
    unfolding upt using jP cpi(1) Suc.prems(1) L
    by (subst extend_cols_step[OF col _ _ nn in_range])
       (simp_all add: diff lt Let_def py_insert_end[OF ci_len])
  show ?case
  proof (rule Suc.hyps(1))
    show "k = P - Suc j" using Suc.hyps(2) by simp
    show "d < Suc j" using Suc.prems(1) by simp
    show "Suc j \<le> P" using jP by simp
    show "length (cols @ [L]) = T + (Suc j - d)" using Suc.prems(1,3) by simp
    show "sum_list (cols @ [L]) = int (Suc j) * L" using Suc.prems(4) by (simp add: algebra_simps)
    show "\<forall>x\<in>set (cols @ [L]). 0 \<le> x" using Suc.prems(5) L by simp
    show "extend_cols lm d cpi [Suc j..<P] (cpp, cols @ [L]) = Inr (cpp2, cols2)"
      using Suc.prems(6) step by simp
  qed
qed


lemma extend_cols_Inr:
  assumes r: "extend_cols lm d cpi [0..<P] (cpp, cols0) = Inr (cpp2, cols2)"
    and col: "tensor_column lm 1 = Inr (replicate P L)" and L: "0 < L" and dP: "d < P"
    and tp: "0 < tp"
    and cpi: "P \<le> length cpi" "\<forall>pr<d. cpi ! pr = int (tp * (pr + 1))" "cpi ! d = int T"
      "\<forall>pr. d < pr \<and> pr < P \<longrightarrow> cpi ! pr = int (T + (pr - d))"
    and len: "length cols0 = T" "tp * d \<le> T"
    and pos: "\<forall>x\<in>set cols0. 0 \<le> x"
    and pre: "\<forall>j\<le>d. sum_list (take (tp * j) cols0) = int j * L"
    and tot: "sum_list cols0 \<le> int (d + 1) * L"
  shows "(\<forall>x\<in>set cols2. 0 \<le> x) \<and> sum_list cols2 = int P * L"
proof -
  have split: "[0..<P] = [0..<d] @ d # [Suc d..<P]"
    using dP by (metis le_add1 less_imp_add_positive upt_add_eq_append upt_conv_Cons
        plus_nat.add_0 less_or_eq_imp_le)
  have r1: "extend_cols lm d cpi (d # [Suc d..<P]) (cpp, cols0) = Inr (cpp2, cols2)"
    using r unfolding split
    by (subst (asm) extend_cols_before_diag[OF col dP _ cpi(2) tp _ pre])
       (use dP cpi(1) len in auto)
  have a: "cumsum (replicate P L) ! d = int (d + 1) * L"
    using dP by (simp add: cumsum_replicate)
  have ia: "py_index (cumsum (replicate P L)) (int d) = Inr (int (d + 1) * L)"
    using dP a by (simp add: py_index_def Let_def)
  have ic: "py_index cpi (int d) = Inr (int T)"
    using dP cpi(1,3) by (simp add: py_index_def Let_def)
  have T0: "0 < T"
  proof (rule ccontr)
    assume "\<not> 0 < T"
    then have "cols0 = []" using len by simp
    then have "extend_cols lm d cpi (d # [Suc d..<P]) (cpp, cols0) = Inl IndexError"
      using \<open>\<not> 0 < T\<close> by (simp add: col ia ic py_index_def Let_def)
    with r1 show False by simp
  qed
  have nn: "0 \<le> cpi ! d - 1" using T0 by (simp add: cpi(3))
  have in_range: "nat (cpi ! d - 1) < length cols0" using T0 unfolding cpi(3) len by linarith
  define diff where "diff = int (d + 1) * L - sum_list cols0"
  have d0: "0 \<le> diff" using tot by (simp add: diff_def)
  have tk: "take T cols0 = cols0" by (simp add: len)
  have dd: "cumsum (replicate P L) ! d - sum_list cols0 = diff" by (simp add: a diff_def)
  have lt_iff: "(sum_list cols0 < cumsum (replicate P L) ! d) = (0 < diff)"
    using dd by linarith
  have "extend_cols lm d cpi (d # [Suc d..<P]) (cpp, cols0) =
      bindE (if diff > 0
                then bindE (py_index cpp (int d)) (\<lambda>n.
                     bindE (py_setitem cpp (int d) (n + 1)) (\<lambda>cpp'.
                       Inr (cpp', py_insert cols0 (int T) diff)))
                else Inr (cpp, cols0)) (\<lambda>(cpp1, cols1).
         extend_cols lm d cpi [Suc d..<P] (cpp1, cols1))"
    using dP cpi(1)
    by (subst extend_cols_step[OF col _ _ nn in_range])
       (simp_all add: tk dd lt_iff Let_def cpi(3))
  with r1 have step: "bindE (if diff > 0
                then bindE (py_index cpp (int d)) (\<lambda>n.
                     bindE (py_setitem cpp (int d) (n + 1)) (\<lambda>cpp'.
                       Inr (cpp', py_insert cols0 (int T) diff)))
                else Inr (cpp, cols0)) (\<lambda>(cpp1, cols1).
         extend_cols lm d cpi [Suc d..<P] (cpp1, cols1)) = Inr (cpp2, cols2)"
    by simp
  show ?thesis
  proof (cases "diff > 0")
    case True
    with step obtain cpp' where
      r3: "extend_cols lm d cpi [Suc d..<P] (cpp', py_insert cols0 (int T) diff) = Inr (cpp2, cols2)"
      by (auto simp: bindE_eq_Inr)
    have ins: "py_insert cols0 (int T) diff = cols0 @ [diff]"
      by (rule py_insert_end) (simp add: len)
    show ?thesis
    proof (rule extend_cols_after_diag[OF col L cpi(1) cpi(4) _ _ _ _ _ r3[unfolded ins]])
      show "d < Suc d" by simp
      show "Suc d \<le> P" using dP by simp
      show "length (cols0 @ [diff]) = T + (Suc d - d)" by (simp add: len)
      show "sum_list (cols0 @ [diff]) = int (Suc d) * L" by (simp add: diff_def)
      show "\<forall>x\<in>set (cols0 @ [diff]). 0 \<le> x" using pos d0 by simp
    qed
  next
    case False
    with d0 have z: "sum_list cols0 = int (d + 1) * L" by (simp add: diff_def)
    from step False have r3: "extend_cols lm d cpi [Suc d..<P] (cpp, cols0) = Inr (cpp2, cols2)"
      by simp
    show ?thesis
    proof (cases "Suc d < P")
      case True
      then have upt: "[Suc d..<P] = Suc d # [Suc (Suc d)..<P]" by (simp add: upt_conv_Cons)
      have ia': "py_index (cumsum (replicate P L)) (int (Suc d))
          = Inr (cumsum (replicate P L) ! Suc d)"
        using True by (intro py_index_nat) simp
      have "py_index cpi (int (Suc d)) = Inr (cpi ! Suc d)"
        using True cpi(1) by (intro py_index_nat) simp
      then have ic': "py_index cpi (int (Suc d)) = Inr (int (T + 1))"
        using True cpi(4) by simp
      have io: "py_index (cumsum cols0) (int (T + 1) - 1) = Inl IndexError"
        using py_index_out[of "cumsum cols0" T] by (simp add: len)
      have "extend_cols lm d cpi [Suc d..<P] (cpp, cols0) = Inl IndexError"
        unfolding upt extend_cols.simps prod.case
        by (simp only: col bindE_simps ia' ic' io)
      with r3 show ?thesis by simp
    next
      case False
      with dP have "Suc d = P" by simp
      with r3 have "cols2 = cols0" by simp
      then show ?thesis using pos z \<open>Suc d = P\<close> by simp
    qed
  qed
qed


subsection \<open>Filling the rows after the diagonal\<close>

lemma sum_list_concat_int: "sum_list (concat xss) = sum_list (map sum_list xss)" for xss :: "int list list"
  by (induction xss) simp_all

lemma fill_rows_all_Inr:
  assumes r: "fill_rows_all lm (int tp) d P rows = Inr rows'"
    and lm: "P \<le> length lm" "\<forall>i<P. \<exists>rest. lm ! i = L # rest"
    and tp: "0 < tp" and L: "0 \<le> L" and pos: "\<forall>x\<in>set rows. 0 \<le> x"
  shows "(\<forall>x\<in>set rows'. 0 \<le> x) \<and> sum_list rows' = sum_list rows + int (P - Suc d) * L"
proof -
  define v where "v i k = L div int tp + (if int k < L mod int tp then 1 else 0)" for i k :: nat
  define steps where "steps = concat (map (\<lambda>i. map (\<lambda>t. (i, t)) [0..<tp]) [d + 1..<P])"
  define nz where "nz = filter (\<lambda>k. rows ! k = 0) [0..<length rows]"
  from r obtain nz' where f: "fill_rows lm (int tp) steps (rows, nz) = Inr (rows', nz')"
    by (auto simp: fill_rows_all_def Let_def bindE_eq_Inr steps_def nz_def)
  have v0: "0 \<le> v i k" for i k
    using L tp by (simp add: v_def pos_imp_zdiv_nonneg_iff)
  have st: "\<forall>(i, k)\<in>set steps.
           bindE (py_index lm (int i)) (\<lambda>shape. bindE (py_index shape 0) (\<lambda>l0.
             chunk l0 (int k) (int tp))) = Inr (v i k) \<and> 0 \<le> v i k"
  proof (clarify, rule conjI)
    fix i k assume "(i, k) \<in> set steps"
    then have i: "i < P" and k: "k < tp" by (auto simp: steps_def)
    then obtain rest where sh: "lm ! i = L # rest" using lm(2) by blast
    have "py_index lm (int i) = Inr (L # rest)"
      using py_index_nat[of i lm] i lm(1) sh by simp
    moreover have "py_index (L # rest) 0 = Inr L" by (simp add: py_index_def)
    ultimately show "bindE (py_index lm (int i)) (\<lambda>shape. bindE (py_index shape 0) (\<lambda>l0.
             chunk l0 (int k) (int tp))) = Inr (v i k)"
      using tp by (simp add: chunk_def v_def)
    show "0 \<le> v i k" by (rule v0)
  qed
  have "(\<forall>x\<in>set rows'. 0 \<le> x) \<and>
         sum_list rows' = sum_list rows + sum_list (map (\<lambda>(i, k). v i k) steps)"
    by (rule fill_rows_Inr[OF f _ _ pos st]) (auto simp: nz_def)
  moreover have "sum_list (map (\<lambda>(i, k). v i k) steps) = int (P - Suc d) * L"
  proof -
    have "map (\<lambda>(i, k). v i k) steps
        = concat (map (\<lambda>i. map (\<lambda>t. L div int tp + (if int t < L mod int tp then 1 else 0)) [0..<tp])
                    [d + 1..<P])"
      by (simp add: steps_def map_concat comp_def v_def)
    then have "sum_list (map (\<lambda>(i, k). v i k) steps) = sum_list (map (\<lambda>i. L) [d + 1..<P])"
      by (simp add: sum_list_concat_int comp_def block_sum[OF tp])
    then show ?thesis by (simp add: sum_list_triv)
  qed
  ultimately show ?thesis by simp
qed

subsection \<open>Boundaries\<close>

lemma cumsum_Cons: "cumsum (x # xs) = x # map (\<lambda>y. x + y) (cumsum xs)"
  by (simp add: cumsum_def upt_conv_Cons map_Suc_upt[symmetric] del: upt_Suc)

lemma sorted_cumsum:
  assumes "\<forall>x\<in>set xs. 0 \<le> x"
  shows "sorted (cumsum xs)"
proof -
  have "cumsum xs ! i \<le> cumsum xs ! j" if "i \<le> j" "j < length xs" for i j
  proof -
    have "take (Suc j) xs = take (Suc i) xs @ drop (Suc i) (take (Suc j) xs)"
      using that by (metis Suc_le_mono append_take_drop_id min.absorb1 take_take)
    then have "sum_list (take (Suc j) xs)
        = sum_list (take (Suc i) xs) + sum_list (drop (Suc i) (take (Suc j) xs))"
      by (metis sum_list_append)
    moreover have "0 \<le> sum_list (drop (Suc i) (take (Suc j) xs))"
      using assms by (intro sum_list_nonneg) (auto dest!: in_set_dropD in_set_takeD)
    ultimately show ?thesis using that by (simp add: nth_cumsum)
  qed
  then show ?thesis by (simp add: sorted_iff_nth_mono)
qed

lemma boundaries_facts:
  assumes ne: "sizes \<noteq> []" and pos: "\<forall>x\<in>set sizes. 0 \<le> x" and le: "sum_list sizes \<le> extent"
  shows "boundaries sizes \<noteq> []" and "hd (boundaries sizes) = 0"
    and "sorted (boundaries sizes @ [extent])"
    and "length (boundaries sizes) = length sizes"
proof -
  let ?b = "butlast sizes"
  have bpos: "\<forall>x\<in>set (0 # ?b). 0 \<le> x" using pos by (auto dest: in_set_butlastD)
  show "boundaries sizes \<noteq> []" by (simp add: boundaries_def cumsum_Cons)
  show "hd (boundaries sizes) = 0" by (simp add: boundaries_def cumsum_Cons)
  show len: "length (boundaries sizes) = length sizes" using ne by (simp add: boundaries_def)
  have srt: "sorted (boundaries sizes)" unfolding boundaries_def by (rule sorted_cumsum[OF bpos])
  have "sum_list sizes = sum_list ?b + last sizes"
    using ne by (metis append_butlast_last_id sum_list.Cons sum_list.Nil sum_list_append add.right_neutral)
  moreover have "0 \<le> last sizes" using ne pos by simp
  ultimately have sb: "sum_list ?b \<le> extent" using le by simp
  have "\<forall>x\<in>set (boundaries sizes). x \<le> extent"
  proof
    fix x assume "x \<in> set (boundaries sizes)"
    then obtain i where i: "i < length (0 # ?b)" and x: "x = cumsum (0 # ?b) ! i"
      by (auto simp: boundaries_def in_set_conv_nth)
    have "0 # ?b = take (Suc i) (0 # ?b) @ drop (Suc i) (0 # ?b)" by simp
    then have "sum_list (0 # ?b) = sum_list (take (Suc i) (0 # ?b)) + sum_list (drop (Suc i) (0 # ?b))"
      by (metis sum_list_append)
    moreover have "0 \<le> sum_list (drop (Suc i) (0 # ?b))"
      using bpos by (intro sum_list_nonneg) (auto dest!: in_set_dropD)
    ultimately have "cumsum (0 # ?b) ! i \<le> sum_list ?b"
      using i by (simp add: nth_cumsum del: take_Suc_Cons drop_Suc_Cons)
    with sb show "x \<le> extent" by (simp add: x)
  qed
  with srt show "sorted (boundaries sizes @ [extent])" by (simp add: sorted_append)
qed

lemma ranges_nth:
  assumes "i < length bs"
  shows "ranges bs extent ! i = (bs ! i, (bs @ [extent]) ! Suc i)"
proof -
  have "bs \<noteq> []" using assms by auto
  then obtain b bs' where bs: "bs = b # bs'" by (cases bs) auto
  show ?thesis using assms by (simp add: ranges_def bs nth_append)
qed

lemma ranges_cover:
  assumes ne: "bs \<noteq> []" and hd: "hd bs = 0" and srt: "sorted (bs @ [extent])"
    and x: "0 \<le> x" "x < extent"
  shows "\<exists>!i. i < length bs \<and> fst (ranges bs extent ! i) \<le> x \<and> x < snd (ranges bs extent ! i)"
proof -
  let ?e = "bs @ [extent]"
  have mono: "\<And>i j. i \<le> j \<Longrightarrow> j < length ?e \<Longrightarrow> ?e ! i \<le> ?e ! j"
    using srt by (simp only: sorted_iff_nth_mono)
  have e0: "?e ! 0 \<le> x" using ne hd x by (cases bs) auto
  have elast: "x < ?e ! length bs" using x by simp
  define Q where "Q k \<longleftrightarrow> k \<le> length bs \<and> ?e ! k \<le> x" for k
  define i where "i = Greatest Q"
  have ex: "Q 0" using e0 by (simp add: Q_def)
  have bound: "\<And>k. Q k \<Longrightarrow> k \<le> length bs" by (simp add: Q_def)
  have "Q i" unfolding i_def using ex bound by (rule GreatestI_nat)
  then have ip: "i \<le> length bs \<and> ?e ! i \<le> x" by (simp add: Q_def)
  have imax': "k \<le> i" if "Q k" for k
    unfolding i_def using that bound by (rule Greatest_le_nat)
  have imax: "\<And>k. k \<le> length bs \<Longrightarrow> ?e ! k \<le> x \<Longrightarrow> k \<le> i"
    by (rule imax') (simp add: Q_def)
  have ilt: "i < length bs"
  proof (rule ccontr)
    assume "\<not> i < length bs"
    with ip have "i = length bs" by simp
    with ip elast show False by simp
  qed
  have nxt: "x < ?e ! Suc i"
  proof (rule ccontr)
    assume "\<not> x < ?e ! Suc i"
    then have "Suc i \<le> i" using ilt by (intro imax) simp_all
    then show False by simp
  qed
  have inr: "\<And>k. k < length bs \<Longrightarrow> ranges bs extent ! k = (?e ! k, ?e ! Suc k)"
    by (simp add: ranges_nth nth_append)
  show ?thesis
  proof (rule ex1I[of _ i])
    show "i < length bs \<and> fst (ranges bs extent ! i) \<le> x \<and> x < snd (ranges bs extent ! i)"
      using ilt ip nxt inr[of i] by simp
  next
    fix k assume k: "k < length bs \<and> fst (ranges bs extent ! k) \<le> x \<and> x < snd (ranges bs extent ! k)"
    then have kk: "k < length bs" "?e ! k \<le> x" "x < ?e ! Suc k" using inr[of k] by auto
    have "k \<le> i" using kk by (intro imax) simp_all
    moreover have "\<not> k < i"
    proof
      assume "k < i"
      then have "?e ! Suc k \<le> ?e ! i" using ilt by (intro mono) simp_all
      with kk(3) ip show False by simp
    qed
    ultimately show "k = i" by simp
  qed
qed

lemma ranges_within:
  assumes ne: "bs \<noteq> []" and hd: "hd bs = 0" and srt: "sorted (bs @ [extent])"
  shows "\<forall>(lo, hi)\<in>set (ranges bs extent). 0 \<le> lo \<and> lo \<le> hi \<and> hi \<le> extent"
proof (clarify)
  fix lo hi assume "(lo, hi) \<in> set (ranges bs extent)"
  then obtain i where i: "i < length bs" and r: "ranges bs extent ! i = (lo, hi)"
    by (auto simp: in_set_conv_nth ranges_def)
  let ?e = "bs @ [extent]"
  have mono: "\<And>i j. i \<le> j \<Longrightarrow> j < length ?e \<Longrightarrow> ?e ! i \<le> ?e ! j"
    using srt by (simp only: sorted_iff_nth_mono)
  have eq: "lo = ?e ! i" "hi = ?e ! Suc i" using r i by (simp_all add: ranges_nth nth_append)
  have "?e ! 0 = 0" using ne hd by (cases bs) auto
  moreover have "?e ! 0 \<le> ?e ! i" using i by (intro mono) simp_all
  moreover have "?e ! i \<le> ?e ! Suc i" using i by (intro mono) simp_all
  moreover have "?e ! Suc i \<le> ?e ! length bs" using i by (intro mono) simp_all
  ultimately show "0 \<le> lo \<and> lo \<le> hi \<and> hi \<le> extent" by (simp add: eq)
qed

lemma tensor_column_balanced0:
  "0 < P \<Longrightarrow> tensor_column (replicate P [x, y]) 0 = Inr (replicate P x)"
  by (cases P) (simp_all add: tensor_column_def map_columns_def Let_def)

lemma tensor_column_balanced1:
  "0 < P \<Longrightarrow> tensor_column (replicate P [x, y]) 1 = Inr (replicate P y)"
  by (cases P) (simp_all add: tensor_column_def map_columns_def Let_def)

lemma gshape_min_pair: "gshape_min [m, n] = Inr (min m n)"
  by (simp add: gshape_min_def min.commute)

lemma if_Inl_InrE:
  assumes "(if a \<or> b then Inl e else Inr r) = Inr t"
  obtains "\<not> a" "\<not> b" "t = r"
  using assms by (simp split: if_splits)

lemma init_tiles_Inr:
  assumes "init_tiles dm a tpp lm mn cs d ltc = Inr t"
  obtains cols0 rows0 g0 g1 cols1 rows1 rpp1 cpp2 cols2 rows2 rows3 where
    "mapE (col_size tpp d ltc
            (0 # (take (d + 1) cs)[d := (if take (d + 1) cs ! d \<le> mn then take (d + 1) cs ! d else mn)]))
       (map int [0..<nat (tpp * int d + ltc)]) = Inr cols0"
    "rows_from_cols tpp (comm_size a) cols0 = Inr rows0"
    "py_index (gshape a) 0 = Inr g0" "py_index (gshape a) 1 = Inr g1"
    "(if g0 < g1 \<and> split a = Some 0
      then py_setitem cols0 (- 1) (g1 - sum_list (butlast cols0)) else Inr cols0) = Inr cols1"
    "(if int d < int (comm_size a) - 1 \<and> split a = Some 0
      then rows_after_diag dm lm g1 d (tpp * int d + ltc) (rows0, replicate (comm_size a) tpp)
      else Inr (rows0, replicate (comm_size a) tpp)) = Inr (rows1, rpp1)"
    "(if split a = Some 1 \<and> g1 > g0
      then extend_cols lm d
             (cumsum (if int d < int (comm_size a) - 1 \<and> split a = Some 1
                      then (replicate (d + 1) tpp)[d := ltc] @ replicate (comm_size a - d - 1) 1
                      else (replicate (d + 1) tpp)[d := ltc]))
             [0..<comm_size a]
             (if int d < int (comm_size a) - 1 \<and> split a = Some 1
              then (replicate (d + 1) tpp)[d := ltc] @ replicate (comm_size a - d - 1) 1
              else (replicate (d + 1) tpp)[d := ltc], cols1)
      else Inr (if int d < int (comm_size a) - 1 \<and> split a = Some 1
                then (replicate (d + 1) tpp)[d := ltc] @ replicate (comm_size a - d - 1) 1
                else (replicate (d + 1) tpp)[d := ltc], cols1)) = Inr (cpp2, cols2)"
    "(if g0 > g1 then fill_rows_all lm tpp d (comm_size a) rows1 else Inr rows1) = Inr rows2"
    "(if g0 > g1 \<and> split a = Some 1 then extra_rows g0 g1 rows2 else Inr rows2) = Inr rows3"
    "cols2 \<noteq> []" "(if g0 < g1 then filter (\<lambda>x. x \<noteq> 0) rows3 else rows3) \<noteq> []"
    "row_indices t = boundaries (if g0 < g1 then filter (\<lambda>x. x \<noteq> 0) rows3 else rows3)"
    "col_indices t = boundaries cols2"
  using assms unfolding init_tiles_def Let_def case_prod_unfold bindE_eq_Inr
  apply (elim exE conjE)
  subgoal for cols0 rows0 g0 g1 cols1 st1 st2 rows2 rows3
    apply (rule that[of cols0 rows0 g0 g1 cols1 "fst st1" "snd st1" "fst st2" "snd st2" rows2 rows3])
                apply assumption
               apply assumption
              apply assumption
             apply assumption
            apply assumption
           apply (simp only: prod.collapse)
          apply (simp only: prod.collapse)
         apply assumption
        apply assumption
       apply (erule if_Inl_InrE, assumption)
      apply (erule if_Inl_InrE, assumption)
     apply (erule if_Inl_InrE, simp (no_asm_simp))
    apply (erule if_Inl_InrE, simp (no_asm_simp))
    done
  done


lemma cpp_replicate:
  "(replicate (d + 1) x)[d := y] = replicate d x @ [y]"
proof -
  have "replicate (d + 1) x = replicate d x @ [x]" by (simp add: replicate_append_same)
  moreover have "(replicate d x @ [x])[d := y] = replicate d x @ [y]"
    using list_update_length[of "replicate d x" x "[]" y] by simp
  ultimately show ?thesis by (simp only:)
qed

lemma cumsum_cpp:
  fixes tp lt d P :: nat
  defines "cpp \<equiv> (replicate (d + 1) (int tp))[d := int lt] @ replicate (P - d - 1) 1"
  assumes dP: "d < P"
  shows "length (cumsum cpp) = P"
    and "\<forall>pr<d. cumsum cpp ! pr = int (tp * (pr + 1))"
    and "cumsum cpp ! d = int (tp * d + lt)"
    and "\<forall>pr. d < pr \<and> pr < P \<longrightarrow> cumsum cpp ! pr = int (tp * d + lt + (pr - d))"
proof -
  have cpp: "cpp = replicate d (int tp) @ [int lt] @ replicate (P - d - 1) 1"
    unfolding cpp_def cpp_replicate by simp
  have len: "length cpp = P" using dP by (simp add: cpp)
  show "length (cumsum cpp) = P" by (simp add: len)
  show "\<forall>pr<d. cumsum cpp ! pr = int (tp * (pr + 1))"
  proof (intro allI impI)
    fix pr assume pr: "pr < d"
    then have "take (Suc pr) cpp = replicate (Suc pr) (int tp)"
      by (simp add: cpp min_def del: replicate_Suc)
    then show "cumsum cpp ! pr = int (tp * (pr + 1))"
      using pr dP len by (simp add: nth_cumsum sum_list_replicate algebra_simps del: replicate_Suc take_Suc_Cons)
  qed
  have "take (Suc d) cpp = replicate d (int tp) @ [int lt]"
    by (simp add: cpp)
  then show "cumsum cpp ! d = int (tp * d + lt)"
    using dP len by (simp add: nth_cumsum sum_list_replicate algebra_simps)
  show "\<forall>pr. d < pr \<and> pr < P \<longrightarrow> cumsum cpp ! pr = int (tp * d + lt + (pr - d))"
  proof (intro allI impI)
    fix pr assume pr: "d < pr \<and> pr < P"
    then have "take (Suc pr) cpp = replicate d (int tp) @ [int lt] @ replicate (pr - d) 1"
      by (auto simp: cpp Suc_diff_le min_def)
    then show "cumsum cpp ! pr = int (tp * d + lt + (pr - d))"
      using pr len by (simp add: nth_cumsum sum_list_replicate algebra_simps)
  qed
qed

lemma diag_crossings_facts:
  fixes d P :: nat and L mn :: int
  defines "cs \<equiv> cumsum (replicate P L)"
  defines "dc \<equiv> 0 # (take (d + 1) cs)[d := (if take (d + 1) cs ! d \<le> mn then take (d + 1) cs ! d else mn)]"
  assumes dP: "d < P" and mn: "mn \<le> int (d + 1) * L"
  shows "length dc = d + 2" and "\<forall>q\<le>d. dc ! q = int q * L" and "dc ! (d + 1) = mn"
proof -
  have csd: "take (d + 1) cs ! d = int (d + 1) * L"
    using dP by (simp add: cs_def cumsum_replicate)
  have len: "length (take (d + 1) cs) = d + 1" using dP by (simp add: cs_def)
  show "length dc = d + 2" using len by (simp add: dc_def)
  have v: "(if take (d + 1) cs ! d \<le> mn then take (d + 1) cs ! d else mn) = mn"
    using mn csd by simp
  show "dc ! (d + 1) = mn"
    unfolding dc_def v using len by simp
  show "\<forall>q\<le>d. dc ! q = int q * L"
  proof (intro allI impI)
    fix q assume q: "q \<le> d"
    show "dc ! q = int q * L"
    proof (cases q)
      case 0
      then show ?thesis by (simp add: dc_def)
    next
      case (Suc q')
      then have q': "q' < d" using q by simp
      then have "dc ! q = cs ! q'" unfolding dc_def v Suc using len by simp
      also have "\<dots> = int (Suc q') * L" using q' dP by (simp add: cs_def cumsum_replicate)
      finally show ?thesis by (simp add: Suc)
    qed
  qed
qed

lemma mult_le_cancel_nat_int:
  fixes P d :: nat and L :: int
  assumes "int P * L \<le> int (d + 1) * L" and "0 < L"
  shows "P \<le> d + 1"
proof -
  from assms have "int P \<le> int (d + 1)" by (simp only: mult_le_cancel_right)
  then show ?thesis by simp
qed

lemma sum_list_filter_nonzero:
  fixes xs :: "int list"
  shows "sum_list (filter (\<lambda>x. x \<noteq> 0) xs) = sum_list xs"
  by (induction xs) simp_all

lemma balanced_inv:
  fixes a :: "'a DNDarray" and tp d P :: nat
  assumes r: "init_tiles dm a (int tp) lm mn cs d ltc = Inr t"
    and g: "gshape a = [m, n]" and s: "split a = Some s" "s = 0 \<or> s = 1"
    and lm: "lm = replicate P (if s = 0 then [L, n] else [m, L])"
    and P: "comm_size a = P"
    and E: "(if s = 0 then m else n) = int P * L"
    and pos: "0 < m" "0 < n" "0 < L" and tp: "0 < tp"
    and mn: "mn = min m n" and cs: "cs = cumsum (replicate P L)"
    and d: "d < P" "mn \<le> int (d + 1) * L" "int d * L \<le> mn"
    and ltc: "0 \<le> ltc" "ltc \<le> int tp"
  shows "\<exists>rows cols. row_indices t = boundaries rows \<and> col_indices t = boundaries cols \<and>
           rows \<noteq> [] \<and> cols \<noteq> [] \<and>
           (\<forall>x\<in>set rows. 0 \<le> x) \<and> sum_list rows \<le> m \<and>
           (\<forall>x\<in>set cols. 0 \<le> x) \<and> sum_list cols \<le> n"
proof -
  define lt where "lt = nat ltc"
  have ltc': "ltc = int lt" and lt: "lt \<le> tp" using ltc by (simp_all add: lt_def)
  have P0: "0 < P" using d by simp
  from init_tiles_Inr[OF r] obtain cols0 rows0 g0 g1 cols1 rows1 rpp1 cpp2 cols2 rows2 rows3
    where c0: "mapE (col_size (int tp) d ltc
            (0 # (take (d + 1) cs)[d := (if take (d + 1) cs ! d \<le> mn then take (d + 1) cs ! d else mn)]))
       (map int [0..<nat (int tp * int d + ltc)]) = Inr cols0"
    and r0: "rows_from_cols (int tp) (comm_size a) cols0 = Inr rows0"
    and ig: "py_index (gshape a) 0 = Inr g0" "py_index (gshape a) 1 = Inr g1"
    and c1: "(if g0 < g1 \<and> split a = Some 0
      then py_setitem cols0 (- 1) (g1 - sum_list (butlast cols0)) else Inr cols0) = Inr cols1"
    and r1: "(if int d < int (comm_size a) - 1 \<and> split a = Some 0
      then rows_after_diag dm lm g1 d (int tp * int d + ltc) (rows0, replicate (comm_size a) (int tp))
      else Inr (rows0, replicate (comm_size a) (int tp))) = Inr (rows1, rpp1)"
    and c2: "(if split a = Some 1 \<and> g1 > g0
      then extend_cols lm d
             (cumsum (if int d < int (comm_size a) - 1 \<and> split a = Some 1
                      then (replicate (d + 1) (int tp))[d := ltc] @ replicate (comm_size a - d - 1) 1
                      else (replicate (d + 1) (int tp))[d := ltc]))
             [0..<comm_size a]
             (if int d < int (comm_size a) - 1 \<and> split a = Some 1
              then (replicate (d + 1) (int tp))[d := ltc] @ replicate (comm_size a - d - 1) 1
              else (replicate (d + 1) (int tp))[d := ltc], cols1)
      else Inr (if int d < int (comm_size a) - 1 \<and> split a = Some 1
                then (replicate (d + 1) (int tp))[d := ltc] @ replicate (comm_size a - d - 1) 1
                else (replicate (d + 1) (int tp))[d := ltc], cols1)) = Inr (cpp2, cols2)"
    and r2: "(if g0 > g1 then fill_rows_all lm (int tp) d (comm_size a) rows1 else Inr rows1) = Inr rows2"
    and r3: "(if g0 > g1 \<and> split a = Some 1 then extra_rows g0 g1 rows2 else Inr rows2) = Inr rows3"
    and ne: "cols2 \<noteq> []" "(if g0 < g1 then filter (\<lambda>x. x \<noteq> 0) rows3 else rows3) \<noteq> []"
    and ri: "row_indices t = boundaries (if g0 < g1 then filter (\<lambda>x. x \<noteq> 0) rows3 else rows3)"
    and ci: "col_indices t = boundaries cols2"
    by blast
  have g0: "g0 = m" and g1: "g1 = n" using ig by (simp_all add: g py_index_def)
  let ?dc = "0 # (take (d + 1) cs)[d := (if take (d + 1) cs ! d \<le> mn then take (d + 1) cs ! d else mn)]"
  note dc = diag_crossings_facts[OF d(1) d(2), folded cs]
  have c0': "mapE (col_size (int tp) d (int lt) ?dc) (map int [0..<tp * d + lt]) = Inr cols0"
  proof -
    have "nat (int tp * int d + ltc) = tp * d + lt"
      by (simp add: ltc' nat_add_distrib nat_mult_distrib)
    with c0 show ?thesis by (simp only: ltc')
  qed
  have L0: "0 \<le> L" using pos by simp
  note cs0 = cols0_sums[OF c0' tp lt dc L0 d(3)]
  have len0: "length cols0 = tp * d + lt" using mapE_Inr[OF c0'] by simp
  have sum0: "sum_list cols0 \<le> mn" using cs0(3) d(3) by (simp split: if_splits)
  have mn_m: "mn \<le> m" and mn_n: "mn \<le> n" by (simp_all add: mn)
  have rows0_pos: "\<forall>x\<in>set rows0. 0 \<le> x"
    using rows_from_cols_Inr(1)[OF r0] cs0(1) by auto
  have rows0_sum: "sum_list rows0 = sum_list cols0" by (rule rows_from_cols_Inr(2)[OF r0])
  let ?rows4 = "if g0 < g1 then filter (\<lambda>x. x \<noteq> 0) rows3 else rows3"
  have fin: "?thesis" if "\<forall>x\<in>set rows3. 0 \<le> x" "sum_list rows3 \<le> m"
    "\<forall>x\<in>set cols2. 0 \<le> x" "sum_list cols2 \<le> n"
  proof -
    have "\<forall>x\<in>set ?rows4. 0 \<le> x" using that(1) by simp
    moreover have "sum_list ?rows4 \<le> m" using that(2) by (simp add: sum_list_filter_nonzero)
    ultimately show ?thesis using ne ri ci that(3,4) by blast
  qed
  from s(2) show ?thesis
  proof
    assume s0: "s = 0"
    have sa: "split a = Some 0" using s(1) s0 by simp
    have lm0: "lm = replicate P [L, n]" using lm s0 by simp
    have m: "m = int P * L" using E s0 by simp
    have col0: "tensor_column lm 0 = Inr (replicate P L)"
      unfolding lm0 by (rule tensor_column_balanced0[OF P0])
    have cols2: "cols2 = cols1" using c2 by (simp add: sa)
    have cols1: "(\<forall>x\<in>set cols1. 0 \<le> x) \<and> sum_list cols1 \<le> n"
    proof (cases "m < n")
      case True
      with c1 have "py_setitem cols0 (- 1) (n - sum_list (butlast cols0)) = Inr cols1"
        by (simp add: g0 g1 sa)
      note u = py_setitem_last[OF this]
      have "sum_list cols0 = sum_list (butlast cols0) + last cols0"
        using u(1) by (metis append_butlast_last_id sum_list.Cons sum_list.Nil sum_list_append add.right_neutral)
      moreover have "0 \<le> last cols0" using u(1) cs0(1) by simp
      ultimately have "sum_list (butlast cols0) \<le> n" using sum0 mn_n by simp
      moreover have "\<forall>x\<in>set (butlast cols0). 0 \<le> x" using cs0(1) by (auto dest: in_set_butlastD)
      ultimately show ?thesis by (auto simp: u(2))
    next
      case False
      with c1 have "cols1 = cols0" by (simp add: g0 g1)
      then show ?thesis using cs0(1) sum0 mn_n by simp
    qed
    have rows3: "rows3 = rows2" using r3 by (simp add: sa)
    have rows2: "(\<forall>x\<in>set rows2. 0 \<le> x) \<and> sum_list rows2 \<le> m"
    proof (cases "d < P - 1")
      case True
      then have dlt: "int (d + 1) * L < int P * L" using pos(3) by simp
      have "mn \<noteq> m" using d(2) dlt m by simp
      then have nm: "n < m" and mnn: "mn = n" using mn by (simp_all add: min_def split: if_splits)
      have n_le: "n \<le> cumsum (replicate P L) ! d"
        using d(1,2) mnn by (simp add: cumsum_replicate)
      have idp: "int d < int P - 1" using True by linarith
      from r1 have "rows_after_diag dm lm n d (int tp * int d + ltc)
          (rows0, replicate P (int tp)) = Inr (rows1, rpp1)"
        by (simp add: sa P g1 idp)
      note ra = rows_after_diag_Inr[OF this col0 _ n_le rows0_pos]
      have rows1_pos: "\<forall>x\<in>set rows1. 0 \<le> x" using ra(1) d(1) by simp
      have rows1_sum: "sum_list rows1 = sum_list rows0 + (int (d + 1) * L - n)"
        using ra(2) d(1) by (simp add: cumsum_replicate)
      have "sum_list rows0 \<le> n" using rows0_sum sum0 mnn by simp
      then have rows1_le: "sum_list rows1 \<le> int (d + 1) * L" using rows1_sum by simp
      from r2 nm have "fill_rows_all lm (int tp) d P rows1 = Inr rows2" by (simp add: g0 g1 P)
      from fill_rows_all_Inr[OF this _ _ tp L0 rows1_pos]
      have "(\<forall>x\<in>set rows2. 0 \<le> x) \<and> sum_list rows2 = sum_list rows1 + int (P - Suc d) * L"
        by (simp add: lm0)
      moreover have "int (d + 1) * L + int (P - Suc d) * L = int P * L"
        using d(1) by (simp add: algebra_simps of_nat_diff)
      ultimately show ?thesis using rows1_le m by simp
    next
      case False
      then have dP: "d = P - 1" using d(1) by simp
      have idp: "\<not> int d < int P - 1" using False by linarith
      from r1 have rows1: "rows1 = rows0" by (simp add: P idp)
      have "(\<forall>x\<in>set rows2. 0 \<le> x) \<and> sum_list rows2 = sum_list rows1 + int (P - Suc d) * L"
      proof (cases "n < m")
        case True
        with r2 have "fill_rows_all lm (int tp) d P rows1 = Inr rows2" by (simp add: g0 g1 P)
        from fill_rows_all_Inr[OF this _ _ tp L0] rows0_pos rows1
        show ?thesis by (simp add: lm0)
      next
        case False
        with r2 have "rows2 = rows1" by (simp add: g0 g1)
        then show ?thesis using rows0_pos rows1 dP by simp
      qed
      then show ?thesis using dP rows1 rows0_sum sum0 mn_m by simp
    qed
    show ?thesis by (rule fin) (use rows2 rows3 cols1 cols2 in simp_all)
  next
    assume s1: "s = 1"
    have sa: "split a = Some 1" using s(1) s1 by simp
    have lm1: "lm = replicate P [m, L]" using lm s1 by simp
    have n: "n = int P * L" using E s1 by simp
    have col1: "tensor_column lm 1 = Inr (replicate P L)"
      unfolding lm1 by (rule tensor_column_balanced1[OF P0])
    have cols1: "cols1 = cols0" using c1 by (simp add: sa)
    have rows1: "rows1 = rows0" using r1 by (simp add: sa)
    have cols2: "(\<forall>x\<in>set cols2. 0 \<le> x) \<and> sum_list cols2 \<le> n"
    proof (cases "m < n")
      case True
      let ?cpp = "(replicate (d + 1) (int tp))[d := int lt] @ replicate (P - d - 1) 1"
      have cpp: "(if int d < int (comm_size a) - 1 \<and> split a = Some 1
                      then (replicate (d + 1) (int tp))[d := ltc] @ replicate (comm_size a - d - 1) 1
                      else (replicate (d + 1) (int tp))[d := ltc]) = ?cpp"
      proof (cases "d < P - 1")
        case True
        then have "int d < int P - 1" by linarith
        then show ?thesis by (simp add: P sa ltc')
      next
        case False
        then have "P - d - 1 = 0" using d(1) by simp
        moreover have "\<not> int d < int P - 1" using False by linarith
        ultimately show ?thesis by (simp add: P sa ltc')
      qed
      from c2 True have e: "extend_cols lm d (cumsum ?cpp) [0..<P] (?cpp, cols0) = Inr (cpp2, cols2)"
        unfolding cpp by (simp add: g0 g1 sa P cols1)
      note cc = cumsum_cpp[OF d(1), of tp lt]
      have tot: "sum_list cols0 \<le> int (d + 1) * L" using sum0 d(2) by simp
      have cl: "P \<le> length (cumsum ?cpp)" by (simp only: cc(1))
      have tl: "tp * d \<le> tp * d + lt" by simp
      have "(\<forall>x\<in>set cols2. 0 \<le> x) \<and> sum_list cols2 = int P * L"
        by (rule extend_cols_Inr[OF e col1 pos(3) d(1) tp cl cc(2) cc(3) cc(4) len0 tl cs0(1) cs0(2) tot])
      then show ?thesis using n by simp
    next
      case False
      with c2 have "cols2 = cols0" by (simp add: g0 g1 cols1)
      then show ?thesis using cs0(1) sum0 mn_n by simp
    qed
    have rows3: "(\<forall>x\<in>set rows3. 0 \<le> x) \<and> sum_list rows3 \<le> m"
    proof (cases "n < m")
      case True
      then have mnn: "mn = n" using mn by simp
      have "P \<le> d + 1"
        by (rule mult_le_cancel_nat_int[OF _ pos(3)]) (use d(2) mnn n in simp)
      then have dP: "P - Suc d = 0" by simp
      from r2 True have "fill_rows_all lm (int tp) d P rows1 = Inr rows2" by (simp add: g0 g1 P)
      from fill_rows_all_Inr[OF this _ _ tp, of m] rows0_pos rows1 pos(1)
      have "(\<forall>x\<in>set rows2. 0 \<le> x) \<and> sum_list rows2 = sum_list rows1 + int (P - Suc d) * m"
        by (simp add: lm1)
      then have rows2: "\<forall>x\<in>set rows2. 0 \<le> x" "sum_list rows2 \<le> n"
        using dP rows1 rows0_sum sum0 mnn by simp_all
      from r3 True have "extra_rows m n rows2 = Inr rows3" by (simp add: g0 g1 sa)
      from extra_rows_Inr[OF this rows2] True show ?thesis by simp
    next
      case False
      with r2 r3 have "rows3 = rows1" by (simp add: g0 g1)
      then show ?thesis using rows1 rows0_pos rows0_sum sum0 mn_m by simp
    qed
    show ?thesis by (rule fin) (use rows3 cols2 in simp_all)
  qed
qed

lemma diag_start_balanced:
  fixes P :: nat
  assumes ds: "diag_start (replicate P (if s = 0 then [L, n] else [m, L])) [m, n] s
                 = Inr (mn, cs, d, r)"
    and s: "s = 0 \<or> s = 1" and P: "0 < P" and pos: "0 < m" "0 < n" "0 < L"
  shows "mn = min m n" and "cs = cumsum (replicate P L)" and "d < P"
    and "mn \<le> int (d + 1) * L" and "int d * L \<le> mn" and "0 \<le> r"
proof -
  have col: "tensor_column (replicate P (if s = 0 then [L, n] else [m, L])) s = Inr (replicate P L)"
    using s tensor_column_balanced0[OF P, of L n] tensor_column_balanced1[OF P, of m L] by auto
  from ds have mn: "mn = min m n" and cs: "cs = cumsum (replicate P L)"
    and fr: "first_reaching (cumsum (replicate P L)) (min m n) = Inr d"
    and r: "r = rem_cols cs mn d"
    unfolding diag_start_def col gshape_min_pair Let_def
    by (auto simp: bindE_eq_Inr)
  note f = first_reaching_Inr[OF fr]
  show "mn = min m n" by (rule mn)
  show "cs = cumsum (replicate P L)" by (rule cs)
  show dP: "d < P" using f(1) by simp
  show "mn \<le> int (d + 1) * L" using f(2) dP by (simp add: mn cumsum_replicate)
  show "int d * L \<le> mn"
  proof (cases d)
    case 0
    then show ?thesis using pos by (simp add: mn)
  next
    case (Suc d')
    then have "cumsum (replicate P L) ! d' < min m n" using f(3) by simp
    moreover have "d' < P" using dP Suc by simp
    ultimately show ?thesis by (simp add: mn cumsum_replicate Suc)
  qed
  show "0 \<le> r" by (simp add: r rem_cols_def Let_def)
qed

lemma loop_returns:
  "0 \<le> r \<Longrightarrow> \<exists>res. last_tile_cols_loop dm r (int l) = Some res"
proof (induction l)
  case 0
  then show ?case
    by (subst last_tile_cols_loop.simps) (simp add: div_less_def split: tensor_division.splits)
next
  case (Suc l)
  have d: "div_less dm r (int (Suc l)) 2
             = Inr (real_of_int r / real_of_int (int (Suc l)) < real_of_int 2)"
    by (simp add: div_less_def)
  have m1: "int (Suc l) - 1 = int l" by simp
  show ?case
    by (subst last_tile_cols_loop.simps) (use Suc in \<open>simp only: d m1 sum.case split: if_splits, simp\<close>)
qed


text \<open>
  What holds of every grid the constructor returns. For a two-dimensional matrix of
  positive extents, split along the rows or the columns in equal local extents, and a
  positive \<^verbatim>\<open>tile_per_proc\<close>, the call returns, and when it returns a grid the row and column
  boundary arrays start at 0, are non-decreasing and stay within the global extent, and
  every row index and every column index of the matrix lies in the half-open range of
  exactly one tile row and one tile column. Boundaries can repeat: a local extent below
  \<^verbatim>\<open>tile_per_proc\<close> is chunked into tiles of size zero.
\<close>

theorem balanced_tiles_cover:
  fixes a :: "'a DNDarray" and tp :: nat
  assumes g: "gshape a = [m, n]" and pos: "0 < m" "0 < n"
    and s: "split a = Some s" "s = 0 \<or> s = 1"
    and lm: "(case lma of None \<Rightarrow> comm_lshapes a | Some x \<Rightarrow> x)
               = replicate (comm_size a) (if s = 0 then [L, n] else [m, L])"
    and E: "(if s = 0 then m else n) = int (comm_size a) * L"
    and tp: "0 < tp"
  shows "(\<exists>res. SquareDiagTiles_init dm (DNDarray_object a) (int tp) lma = Some res) \<and>
         (\<forall>t. SquareDiagTiles_init dm (DNDarray_object a) (int tp) lma = Some (Inr t) \<longrightarrow>
            hd (row_indices t) = 0 \<and> hd (col_indices t) = 0 \<and>
            sorted (row_indices t @ [m]) \<and> sorted (col_indices t @ [n]) \<and>
            (\<forall>x y. 0 \<le> x \<and> x < m \<and> 0 \<le> y \<and> y < n \<longrightarrow>
               (\<exists>!i. in_range (row_indices t) m i x) \<and>
               (\<exists>!j. in_range (col_indices t) n j y)))"
proof -
  define P where "P = comm_size a"
  define lmv where "lmv = replicate P (if s = 0 then [L, n] else [m, L])"
  have "0 < int P * L" using E pos s(2) by (auto simp: P_def)
  then have L: "0 < L" and P: "0 < P" by (simp_all add: zero_less_mult_iff)
  have eq: "SquareDiagTiles_init dm (DNDarray_object a) (int tp) lma =
        (case diag_start lmv [m, n] s of
           Inl e \<Rightarrow> Some (Inl e)
         | Inr (mn, cs, d, r) \<Rightarrow>
             (case last_tile_cols_loop dm r (int tp) of
                None \<Rightarrow> None
              | Some (Inl e) \<Rightarrow> Some (Inl e)
              | Some (Inr l) \<Rightarrow> Some (init_tiles dm a (int tp) lmv mn cs d l)))"
    unfolding lmv_def P_def by (simp add: SquareDiagTiles_init_def Let_def lm s g)
  have ret: "\<exists>res. SquareDiagTiles_init dm (DNDarray_object a) (int tp) lma = Some res"
  proof (cases "diag_start lmv [m, n] s")
    case (Inl e)
    then show ?thesis by (simp add: eq)
  next
    case (Inr q)
    obtain mn cs d r where q: "q = (mn, cs, d, r)" by (cases q)
    have "0 \<le> r"
      by (rule diag_start_balanced(6)[OF Inr[unfolded lmv_def q] s(2) P pos L])
    from loop_returns[OF this, of dm tp] obtain res
      where "last_tile_cols_loop dm r (int tp) = Some res" by blast
    then show ?thesis by (cases res) (simp_all add: eq Inr q)
  qed
  have cov: "hd (row_indices t) = 0 \<and> hd (col_indices t) = 0 \<and>
            sorted (row_indices t @ [m]) \<and> sorted (col_indices t @ [n]) \<and>
            (\<forall>x y. 0 \<le> x \<and> x < m \<and> 0 \<le> y \<and> y < n \<longrightarrow>
               (\<exists>!i. in_range (row_indices t) m i x) \<and>
               (\<exists>!j. in_range (col_indices t) n j y))"
    if t: "SquareDiagTiles_init dm (DNDarray_object a) (int tp) lma = Some (Inr t)" for t
  proof -
    from t obtain mn cs d r l where ds: "diag_start lmv [m, n] s = Inr (mn, cs, d, r)"
      and lp: "last_tile_cols_loop dm r (int tp) = Some (Inr l)"
      and it: "init_tiles dm a (int tp) lmv mn cs d l = Inr t"
      unfolding eq by (auto split: sum.splits option.splits)
    note f = diag_start_balanced[OF ds[unfolded lmv_def] s(2) P pos L]
    have l: "0 \<le> l" "l \<le> int tp" using loop_bounds[OF lp] f(6) by simp_all
    from balanced_inv[OF it g s lmv_def P_def[symmetric] E[folded P_def] pos L tp f(1,2,3,4,5) l]
    obtain rows cols where ri: "row_indices t = boundaries rows"
      and ci: "col_indices t = boundaries cols"
      and ne: "rows \<noteq> []" "cols \<noteq> []"
      and rows: "\<forall>x\<in>set rows. 0 \<le> x" "sum_list rows \<le> m"
      and cols: "\<forall>x\<in>set cols. 0 \<le> x" "sum_list cols \<le> n"
      by blast
    note rb = boundaries_facts[OF ne(1) rows]
    note cb = boundaries_facts[OF ne(2) cols]
    have "\<exists>!i. in_range (row_indices t) m i x" if "0 \<le> x" "x < m" for x
      unfolding in_range_def ri by (rule ranges_cover[OF rb(1,2,3) that])
    moreover have "\<exists>!j. in_range (col_indices t) n j y" if "0 \<le> y" "y < n" for y
      unfolding in_range_def ci by (rule ranges_cover[OF cb(1,2,3) that])
    ultimately show ?thesis using rb(2,3) cb(2,3) by (simp add: ri ci)
  qed
  from ret cov show ?thesis by blast
qed


text \<open>The theorem on the 8 x 8 example, for the row 5 and the column 7.\<close>

theorem balanced_tiles_cover_witness:
  "gshape (example_array 0) = [8, 8] \<and> split (example_array 0) = Some 0 \<and>
   comm_lshapes (example_array 0) = replicate 2 [4, 8] \<and>
   SquareDiagTiles_init True_division (DNDarray_object (example_array 0)) 2 None
     = Some (Inr (example_tiles 0)) \<and>
   row_indices (example_tiles 0) = [0, 2, 4, 6] \<and>
   sorted (row_indices (example_tiles 0) @ [8]) \<and>
   sorted (col_indices (example_tiles 0) @ [8]) \<and>
   (\<exists>!i. in_range (row_indices (example_tiles 0)) 8 i 5) \<and>
   (\<exists>!j. in_range (col_indices (example_tiles 0)) 8 j 7)"
proof -
  have b: "SquareDiagTiles_init True_division (DNDarray_object (example_array 0)) (int 2) None
     = Some (Inr (example_tiles 0))"
    using example_built[of True_division 0] by simp
  have h: "gshape (example_array 0) = [8, 8]" "split (example_array 0) = Some 0"
    "(case None of None \<Rightarrow> comm_lshapes (example_array 0) | Some x \<Rightarrow> x)
          = replicate (comm_size (example_array 0)) (if (0::int) = 0 then [4, 8] else [8, 4])"
    "(if (0::int) = 0 then 8 else 8) = int (comm_size (example_array 0)) * 4"
    by (simp_all add: example_array_def numeral_2_eq_2)
  have "(\<exists>res. SquareDiagTiles_init True_division (DNDarray_object (example_array 0)) (int 2) None = Some res) \<and>
        (\<forall>t. SquareDiagTiles_init True_division (DNDarray_object (example_array 0)) (int 2) None = Some (Inr t) \<longrightarrow>
            hd (row_indices t) = 0 \<and> hd (col_indices t) = 0 \<and>
            sorted (row_indices t @ [8]) \<and> sorted (col_indices t @ [8]) \<and>
            (\<forall>x y. 0 \<le> x \<and> x < 8 \<and> 0 \<le> y \<and> y < 8 \<longrightarrow>
               (\<exists>!i. in_range (row_indices t) 8 i x) \<and>
               (\<exists>!j. in_range (col_indices t) 8 j y)))"
    by (rule balanced_tiles_cover[of "example_array 0" 8 8 0 None 4 2 True_division, OF h(1) _ _ h(2) _ h(3) h(4)])
       simp_all
  with b have c: "sorted (row_indices (example_tiles 0) @ [8]) \<and> sorted (col_indices (example_tiles 0) @ [8]) \<and>
            (\<forall>x y. 0 \<le> x \<and> x < 8 \<and> 0 \<le> y \<and> y < 8 \<longrightarrow>
               (\<exists>!i. in_range (row_indices (example_tiles 0)) 8 i x) \<and>
               (\<exists>!j. in_range (col_indices (example_tiles 0)) 8 j y))"
    by blast
  then have q: "0 \<le> x \<and> x < 8 \<and> 0 \<le> y \<and> y < 8 \<Longrightarrow>
               (\<exists>!i. in_range (row_indices (example_tiles 0)) 8 i x) \<and>
               (\<exists>!j. in_range (col_indices (example_tiles 0)) 8 j y)" for x y
    by blast
  have "(\<exists>!i. in_range (row_indices (example_tiles 0)) 8 i 5) \<and>
             (\<exists>!j. in_range (col_indices (example_tiles 0)) 8 j 7)"
    using q[of 5 7] by simp
  moreover have "row_indices (example_tiles 0) = [0, 2, 4, 6]" by (simp add: example_tiles_def)
  moreover have "gshape (example_array 0) = [8, 8] \<and> split (example_array 0) = Some 0 \<and>
    comm_lshapes (example_array 0) = replicate 2 [4, 8]"
    by (simp add: example_array_def numeral_2_eq_2)
  ultimately show ?thesis using b c by simp
qed

text \<open>
  Repeated boundaries: a 4 x 4 matrix split along the rows over four processes, with two
  tiles per process.
\<close>

lemma thin_boundaries_repeat:
  "map_option (map_sum id (\<lambda>t. (row_indices t, col_indices t)))
     (SquareDiagTiles_init True_division (DNDarray_object example_array_thin) 2 None)
     = Some (Inr ([0, 1, 1, 2, 2, 3, 3, 4], [0, 1, 1, 2, 2, 3, 3])) \<and>
   ranges [0, 1, 1, 2, 2, 3, 3] 4 = [(0, 1), (1, 1), (1, 2), (2, 2), (2, 3), (3, 3), (3, 4 :: int)]"
  by code_simp

text \<open>
  C1. For a matrix whose extent along the split axis is a multiple of the number of
  processes and of \<^verbatim>\<open>tile_per_proc\<close> the constructor is to build a grid whose ranges
  reconstruct the matrix. For a matrix with more columns than rows that is split along
  the columns, the loop of lines 153--163 reads \<^verbatim>\<open>col_cumsum[col_proc_ind[pr] - 1]\<close>, and
  \<^verbatim>\<open>col_proc_ind\<close> counts one tile column for every rank after the diagonal before any of
  them is inserted. The index is in range only when the iteration of the last diagonal
  rank has inserted a column, which it does when the diagonal ends inside the columns of
  that rank (6 x 30 over three processes: a grid is built). When the diagonal ends on the
  boundary of the rank (4 x 16 over four processes, 4 x 8 over two) nothing is inserted,
  the next iteration reads past the end, and the constructor raises IndexError: no grid
  is built.
\<close>

theorem wide_column_split_raises:
  "SquareDiagTiles_init True_division (DNDarray_object example_array_wide) 2 None
     = Some (Inl IndexError) \<and>
   SquareDiagTiles_init Integer_division (DNDarray_object example_array_wide) 2 None
     = Some (Inl IndexError) \<and>
   SquareDiagTiles_init True_division (DNDarray_object example_array_wide2) 2 None
     = Some (Inl IndexError) \<and>
   map_option (map_sum id (\<lambda>t. (row_indices t, col_indices t)))
     (SquareDiagTiles_init True_division (DNDarray_object example_array_wide30) 2 None)
     = Some (Inr ([0, 3], [0, 3, 6, 10, 20]))"
  by code_simp

end
